theory Spec2Isabelle
  imports Complex_Main "HOL-Library.AList"
begin

section \<open>Python values and exceptions\<close>

text \<open>
  The module \<^verbatim>\<open>optimization_utils.py\<close> defines no exception class of its own: every
  failure is a built-in Python exception, raised by the module itself or by a
  \<^verbatim>\<open>list\<close>, \<^verbatim>\<open>dict\<close> or \<^verbatim>\<open>numpy\<close> operation it calls. Each one is a constructor here.
  \<^item> \<open>ValueError_missing_matchup a b\<close> is
    \<^verbatim>\<open>ValueError(f"Matchup probability is missing: {current_seed, matchup_opponent}")\<close>,
    the message holding the pair \<open>(a, b)\<close>;
  \<^item> \<open>ValueError_argmin_empty\<close> is what \<^verbatim>\<open>np.argmin\<close> raises on an array of size 0
    (attempt to get argmin of an empty sequence);
  \<^item> \<open>ValueError_binomial_p\<close> is what \<^verbatim>\<open>np.random.binomial\<close> raises for a probability
    outside the unit interval;
  \<^item> \<open>IndexError_pop\<close> is \<^verbatim>\<open>list.pop(0)\<close> on an empty list;
  \<^item> \<open>KeyError k\<close> is a subscript of a \<^verbatim>\<open>dict\<close> at a missing key \<open>k\<close>;
  \<^item> \<open>UnboundLocalError\<close> is a read of a local variable that was never assigned.
  Floats are modelled by the reals: rounding, infinities and NaN are outside the model.
\<close>

datatype error =
    ValueError_missing_matchup int int
  | ValueError_argmin_empty
  | ValueError_binomial_p
  | IndexError_pop
  | KeyError int
  | UnboundLocalError

section \<open>The win probability dictionary\<close>

text \<open>
  \<^verbatim>\<open>win_probability_dictionary: Dict[int, Dict[int, float]]\<close>. A dictionary is an
  association list read with \<^const>\<open>map_of\<close>; the empty inner dictionary is \<open>[]\<close>, which
  is what the truth test \<^verbatim>\<open>if seed_win_prob_dict:\<close> looks at.
\<close>

type_synonym win_probability_dictionary = "(int \<times> (int \<times> real) list) list"

definition extract_win_probability_by_seed ::
  "win_probability_dictionary \<Rightarrow> int \<Rightarrow> int \<Rightarrow> error + real" where
  "extract_win_probability_by_seed tbl current_seed matchup_opponent =
     (case (case map_of tbl current_seed of
              None \<Rightarrow> None
            | Some seed_win_prob_dict \<Rightarrow>
                if seed_win_prob_dict \<noteq> [] then map_of seed_win_prob_dict matchup_opponent
                else None) of
        Some matchup_probability \<Rightarrow> Inr matchup_probability
      | None \<Rightarrow>
          (case map_of tbl matchup_opponent of
             None \<Rightarrow> Inl (ValueError_missing_matchup current_seed matchup_opponent)
           | Some seed_win_prob_dict \<Rightarrow>
               if seed_win_prob_dict = []
               then Inl (ValueError_missing_matchup current_seed matchup_opponent)
               else (case map_of seed_win_prob_dict current_seed of
                       None \<Rightarrow> Inl (ValueError_missing_matchup current_seed matchup_opponent)
                     | Some matchup_probability \<Rightarrow> Inr (1 - matchup_probability))))"

text \<open>The entry of the table in the direction \<open>a \<rightarrow> b\<close>, when there is one.\<close>

definition table_entry :: "win_probability_dictionary \<Rightarrow> int \<Rightarrow> int \<Rightarrow> real option" where
  "table_entry tbl a b = (case map_of tbl a of None \<Rightarrow> None | Some d \<Rightarrow> map_of d b)"

section \<open>The region bracket\<close>

text \<open>
  A round descriptor is \<^verbatim>\<open>Union[int, Tuple[int]]\<close>: the one opponent of the first round,
  or the tuple of the seeds one of which is the opponent of a later round.
\<close>

datatype descr = Seed int | Tuple "int list"

text \<open>
  The lists of descriptors are the only objects the class mutates in place
  (\<^verbatim>\<open>matchup_path.pop(0)\<close>), and a dictionary holds references to them, so they live in
  a store: \<open>heap\<close> gives the content of the list at an address and \<open>top\<close> is the first
  address not yet allocated. Dictionaries are association lists in insertion order, the
  order in which Python iterates over them.

  \<^verbatim>\<open>np.random.binomial(n=1, p=win_probability)\<close> draws from numpy's global generator.
  The generator is the stream \<open>rng\<close> of the samples it will deliver, each in the unit
  interval, and the number \<open>draws\<close> of samples taken so far; the game outcome is \<open>1\<close> when
  the sample is below \<open>p\<close>, so that it is always \<open>1\<close> for \<open>p = 1\<close> and always \<open>0\<close> for
  \<open>p = 0\<close>.
\<close>

type_synonym addr = nat

record world =
  heap :: "addr \<Rightarrow> descr list"
  top :: addr
  rng :: "nat \<Rightarrow> real"
  draws :: nat

text \<open>The fields of a \<^verbatim>\<open>RegionBracket\<close> instance, on top of the world it lives in.\<close>

record bracket = world +
  seed_path_dictionary :: "(int \<times> addr) list"
  win_probability_dictionary :: win_probability_dictionary
  points_by_seed :: "(int \<times> int) list"
  current_matchup_state :: "(int \<times> addr) list"

text \<open>
  The module constant \<^verbatim>\<open>SEED_PATH_DICTIONARY\<close>: its eight lists are allocated when the
  module is imported, at the addresses \<open>0..7\<close>.
\<close>

definition SEED_PATH_LISTS :: "descr list list" where
  "SEED_PATH_LISTS =
     [[Seed 16, Tuple [8, 9], Tuple [4, 5, 12, 13], Tuple [2, 3, 6, 7, 10, 11, 14, 15]],
      [Seed 15, Tuple [7, 10], Tuple [3, 6, 11, 14], Tuple [1, 4, 5, 8, 9, 12, 13, 16]],
      [Seed 14, Tuple [6, 11], Tuple [2, 7, 10, 15], Tuple [1, 4, 5, 8, 9, 12, 13, 16]],
      [Seed 13, Tuple [5, 12], Tuple [1, 8, 9, 16], Tuple [2, 3, 6, 7, 10, 11, 14, 15]],
      [Seed 12, Tuple [4, 13], Tuple [1, 8, 9, 16], Tuple [2, 3, 6, 7, 10, 11, 14, 15]],
      [Seed 11, Tuple [3, 14], Tuple [2, 7, 10, 15], Tuple [1, 4, 5, 8, 9, 12, 13, 16]],
      [Seed 10, Tuple [2, 15], Tuple [3, 6, 11, 14], Tuple [1, 4, 5, 8, 9, 12, 13, 16]],
      [Seed 9, Tuple [1, 16], Tuple [4, 5, 12, 13], Tuple [2, 3, 6, 7, 10, 11, 14, 15]]]"

definition SEED_PATH_DICTIONARY :: "(int \<times> addr) list" where
  "SEED_PATH_DICTIONARY = [(1, 0), (2, 1), (3, 2), (4, 3), (5, 4), (6, 5), (7, 6), (8, 7)]"

definition module_world :: "(nat \<Rightarrow> real) \<Rightarrow> world" where
  "module_world g =
     \<lparr>heap = (\<lambda>a. if a < 8 then SEED_PATH_LISTS ! a else []), top = 8, rng = g, draws = 0\<rparr>"

text \<open>
  \<^verbatim>\<open>deepcopy\<close> of a dictionary of lists: every list object is copied once to a fresh
  address, and the memo sends a list that two keys share to one shared copy. The
  descriptors inside are integers and tuples of integers, which are immutable.
\<close>

fun deepcopy_items ::
  "(int \<times> addr) list \<Rightarrow> (addr \<times> addr) list \<Rightarrow> (addr \<Rightarrow> descr list) \<Rightarrow> addr
   \<Rightarrow> (int \<times> addr) list \<times> (addr \<Rightarrow> descr list) \<times> addr" where
  "deepcopy_items [] memo h t = ([], h, t)"
| "deepcopy_items ((k, a) # items) memo h t =
     (case map_of memo a of
        Some a' \<Rightarrow>
          (case deepcopy_items items memo h t of
             (copied, h', t') \<Rightarrow> ((k, a') # copied, h', t'))
      | None \<Rightarrow>
          (case deepcopy_items items ((a, t) # memo) (h(t := h a)) (Suc t) of
             (copied, h', t') \<Rightarrow> ((k, t) # copied, h', t')))"

text \<open>The constructor: the dataclass fields, then \<^verbatim>\<open>__post_init__\<close>.\<close>

definition RegionBracket ::
  "(int \<times> addr) list \<Rightarrow> win_probability_dictionary \<Rightarrow> world \<Rightarrow> bracket" where
  "RegionBracket spd wpd w =
     (case deepcopy_items spd [] (heap w) (top w) of
        (copied, h, t) \<Rightarrow>
          \<lparr>heap = h, top = t, rng = rng w, draws = draws w,
           seed_path_dictionary = spd, win_probability_dictionary = wpd,
           points_by_seed = map (\<lambda>n. (int n + 1, 0)) [0..<16],
           current_matchup_state = copied\<rparr>)"

text \<open>The local variables of \<^verbatim>\<open>simulate_round_and_update_current_state\<close>.\<close>

record locals =
  updated_matchup_state :: "(int \<times> addr) list"
  visited :: "int set"
  current_opponent :: "int option"

text \<open>
  The choice of the opponent, lines 49 to 59: for a tuple, the first member that is a key
  of the current state, which is also marked visited; when no member is a key, the inner
  loop assigns nothing and \<^verbatim>\<open>current_opponent\<close> keeps the value of an earlier iteration,
  or stays unbound. For an integer, that integer.
\<close>

definition select_opponent :: "int list \<Rightarrow> locals \<Rightarrow> descr \<Rightarrow> locals" where
  "select_opponent keys l next_opponent =
     (case next_opponent of
        Tuple possible \<Rightarrow>
          (case find (\<lambda>possible_opponent. possible_opponent \<in> set keys) possible of
             Some c \<Rightarrow> l\<lparr>visited := insert c (visited l), current_opponent := Some c\<rparr>
           | None \<Rightarrow> l)
      | Seed n \<Rightarrow> l\<lparr>current_opponent := Some n\<rparr>)"

text \<open>
  One iteration of \<^verbatim>\<open>for seed, matchup_path in self.current_matchup_state.items()\<close>.
  An exception leaves the instance and the store as they are at the raise, and the locals
  are gone.
\<close>

definition round_body :: "int \<Rightarrow> addr \<Rightarrow> locals \<Rightarrow> bracket \<Rightarrow> (error + locals) \<times> bracket" where
  "round_body seed matchup_path l b =
     (if seed \<in> visited l then (Inr l, b)
      else
        (case heap b matchup_path of
           [] \<Rightarrow> (Inl IndexError_pop, b)
         | next_opponent # rest \<Rightarrow>
             (let b1 = b\<lparr>heap := (heap b)(matchup_path := rest)\<rparr>;
                  l1 = select_opponent (map fst (current_matchup_state b)) l next_opponent
              in case current_opponent l1 of
                   None \<Rightarrow> (Inl UnboundLocalError, b1)
                 | Some opp \<Rightarrow>
                     (case extract_win_probability_by_seed (win_probability_dictionary b1) seed opp of
                        Inl e \<Rightarrow> (Inl e, b1)
                      | Inr win_probability \<Rightarrow>
                          if win_probability < 0 \<or> 1 < win_probability
                          then (Inl ValueError_binomial_p, b1)
                          else
                            (let game_outcome = (rng b1 (draws b1) < win_probability);
                                 b2 = b1\<lparr>draws := Suc (draws b1)\<rparr>;
                                 winning_seed = (if game_outcome then seed else opp)
                             in case map_of (points_by_seed b2) winning_seed of
                                  None \<Rightarrow> (Inl (KeyError winning_seed), b2)
                                | Some pts \<Rightarrow>
                                    (Inr (l1\<lparr>updated_matchup_state :=
                                              AList.update winning_seed matchup_path
                                                (updated_matchup_state l1)\<rparr>),
                                     b2\<lparr>points_by_seed :=
                                          AList.update winning_seed (pts + winning_seed)
                                            (points_by_seed b2)\<rparr>))))))"

fun round_loop :: "(int \<times> addr) list \<Rightarrow> locals \<Rightarrow> bracket \<Rightarrow> (error + locals) \<times> bracket" where
  "round_loop [] l b = (Inr l, b)"
| "round_loop ((seed, matchup_path) # items) l b =
     (case round_body seed matchup_path l b of
        (Inl e, b') \<Rightarrow> (Inl e, b')
      | (Inr l', b') \<Rightarrow> round_loop items l' b')"

text \<open>
  The locals at the start of a round: \<^verbatim>\<open>updated_matchup_state, visited = {}, set()\<close>, and
  \<^verbatim>\<open>current_opponent\<close> not yet bound.
\<close>

definition initial_locals :: locals where
  "initial_locals = \<lparr>updated_matchup_state = [], visited = {}, current_opponent = None\<rparr>"

text \<open>The result \<open>None\<close> is a normal return, \<open>Some e\<close> the exception \<open>e\<close>.\<close>

definition simulate_round_and_update_current_state :: "bracket \<Rightarrow> error option \<times> bracket" where
  "simulate_round_and_update_current_state b =
     (case round_loop (current_matchup_state b) initial_locals b of
        (Inl e, b') \<Rightarrow> (Some e, b')
      | (Inr l, b') \<Rightarrow> (None, b'\<lparr>current_matchup_state := updated_matchup_state l\<rparr>))"

text \<open>\<^verbatim>\<open>for _ in range(n): self.simulate_round_and_update_current_state()\<close>.\<close>

fun simulate_rounds :: "nat \<Rightarrow> bracket \<Rightarrow> error option \<times> bracket" where
  "simulate_rounds 0 b = (None, b)"
| "simulate_rounds (Suc n) b =
     (case simulate_round_and_update_current_state b of
        (Some e, b') \<Rightarrow> (Some e, b')
      | (None, b') \<Rightarrow> simulate_rounds n b')"

definition simulate_region_tournament :: "bracket \<Rightarrow> error option \<times> bracket" where
  "simulate_region_tournament b = simulate_rounds 4 b"

section \<open>The matchups of a round\<close>

text \<open>
  Who plays whom in a round depends on the keys of the current state, on the lists in
  the store and on the visited set, never on an outcome of the same round. The function
  \<open>round_matchups\<close> follows the loop through the visited test, the pop and the choice of
  the opponent only, and lists the matchups \<open>(seed, opponent, matchup_path)\<close> in the order
  in which the loop resolves them; \<open>None\<close> when the loop would raise before a lookup.
\<close>

fun round_matchups ::
  "int list \<Rightarrow> (int \<times> addr) list \<Rightarrow> locals \<Rightarrow> (addr \<Rightarrow> descr list)
   \<Rightarrow> (int \<times> int \<times> addr) list option" where
  "round_matchups keys [] l h = Some []"
| "round_matchups keys ((seed, matchup_path) # items) l h =
     (if seed \<in> visited l then round_matchups keys items l h
      else
        (case h matchup_path of
           [] \<Rightarrow> None
         | next_opponent # rest \<Rightarrow>
             (case current_opponent (select_opponent keys l next_opponent) of
                None \<Rightarrow> None
              | Some opp \<Rightarrow>
                  map_option (Cons (seed, opp, matchup_path))
                    (round_matchups keys items (select_opponent keys l next_opponent)
                       (h(matchup_path := rest))))))"

text \<open>The matchups of the round that starts from the instance \<open>b\<close>.\<close>

definition matchups_of :: "bracket \<Rightarrow> (int \<times> int \<times> addr) list option" where
  "matchups_of b =
     round_matchups (map fst (current_matchup_state b)) (current_matchup_state b)
       initial_locals (heap b)"

text \<open>
  The probability the lookup returns, the winner of the matchup of \<open>seed\<close> and \<open>opp\<close> that
  takes sample number \<open>d\<close>, and the winners of a list of matchups that take the samples
  from number \<open>d\<close> on.
\<close>

definition win_probability :: "win_probability_dictionary \<Rightarrow> int \<Rightarrow> int \<Rightarrow> real" where
  "win_probability tbl a b =
     (case extract_win_probability_by_seed tbl a b of Inl e \<Rightarrow> 0 | Inr p \<Rightarrow> p)"

definition winner :: "win_probability_dictionary \<Rightarrow> (nat \<Rightarrow> real) \<Rightarrow> nat \<Rightarrow> int \<Rightarrow> int \<Rightarrow> int" where
  "winner tbl g d seed opp = (if g d < win_probability tbl seed opp then seed else opp)"

fun winners ::
  "win_probability_dictionary \<Rightarrow> (nat \<Rightarrow> real) \<Rightarrow> nat \<Rightarrow> (int \<times> int) list \<Rightarrow> int list" where
  "winners tbl g d [] = []"
| "winners tbl g d ((seed, opp) # ms) = winner tbl g d seed opp # winners tbl g (Suc d) ms"

text \<open>The two seeds of each matchup of a list, and the list popped for each.\<close>

definition contestants :: "(int \<times> int \<times> addr) list \<Rightarrow> (int \<times> int) list" where
  "contestants ms = map (\<lambda>m. (fst m, fst (snd m))) ms"

definition paths :: "(int \<times> int \<times> addr) list \<Rightarrow> addr list" where
  "paths ms = map (\<lambda>m. snd (snd m)) ms"

text \<open>
  The effect of a list of resolved matchups on the three things a round changes: the
  popped lists, the points of the winners, and the next state under construction.
\<close>

fun pop_paths :: "addr list \<Rightarrow> (addr \<Rightarrow> descr list) \<Rightarrow> (addr \<Rightarrow> descr list)" where
  "pop_paths [] h = h"
| "pop_paths (a # as) h = pop_paths as (h(a := tl (h a)))"

fun award :: "int list \<Rightarrow> (int \<times> int) list \<Rightarrow> (int \<times> int) list" where
  "award [] P = P"
| "award (w # ws) P =
     award ws (case map_of P w of None \<Rightarrow> P | Some pts \<Rightarrow> AList.update w (pts + w) P)"

fun advance :: "(int \<times> addr) list \<Rightarrow> (int \<times> addr) list \<Rightarrow> (int \<times> addr) list" where
  "advance [] u = u"
| "advance ((w, a) # was) u = advance was (AList.update w a u)"

text \<open>
  The instance after a round that resolved matchups with the winners \<open>ws\<close> and popped the
  lists at \<open>as\<close>: one sample taken and one list popped for each matchup, the winners'
  points awarded, and each winner keyed to the list popped for its matchup.
\<close>

definition round_result :: "bracket \<Rightarrow> int list \<Rightarrow> addr list \<Rightarrow> bracket" where
  "round_result b ws as =
     b\<lparr>heap := pop_paths as (heap b), draws := draws b + length as,
       points_by_seed := award ws (points_by_seed b),
       current_matchup_state := zip ws as\<rparr>"

text \<open>
  The bracket as the specification describes it. The first round pairs seed \<open>s\<close> of
  \<open>1..8\<close> with seed \<open>17 - s\<close>; every later round pairs the first survivor with the last,
  the second with the last but one, and so on. \<open>slot1\<close>, \<open>slot2\<close> and \<open>slot3\<close> give the
  slot in which a seed stands after one, two and three rounds if it is still alive.
\<close>

definition first_round :: "(int \<times> int) list" where
  "first_round = [(1, 16), (2, 15), (3, 14), (4, 13), (5, 12), (6, 11), (7, 10), (8, 9)]"

definition pairing :: "int list \<Rightarrow> (int \<times> int) list" where
  "pairing ws = zip (take (length ws div 2) ws) (rev (drop (length ws div 2) ws))"

definition slot1 :: "int \<Rightarrow> int" where
  "slot1 s = (if s \<le> 8 then s else 17 - s)"

definition slot2 :: "int \<Rightarrow> int" where
  "slot2 s = (if slot1 s \<le> 4 then slot1 s else 9 - slot1 s)"

definition slot3 :: "int \<Rightarrow> int" where
  "slot3 s = (if slot2 s \<le> 2 then slot2 s else 5 - slot2 s)"

text \<open>
  A world in which the module has been imported: the eight lists of
  \<^verbatim>\<open>SEED_PATH_DICTIONARY\<close> stand at the addresses \<open>0..7\<close> with their original content.
  The copies an instance makes of them in a world \<open>w\<close> stand at \<open>slot_paths (top w)\<close>.
\<close>

definition module_loaded :: "world \<Rightarrow> bool" where
  "module_loaded w = (8 \<le> top w \<and> map (heap w) [0, 1, 2, 3, 4, 5, 6, 7] = SEED_PATH_LISTS)"

definition slot_paths :: "addr \<Rightarrow> addr list" where
  "slot_paths t =
     [t, Suc t, Suc (Suc t), Suc (Suc (Suc t)), Suc (Suc (Suc (Suc t))),
      Suc (Suc (Suc (Suc (Suc t)))), Suc (Suc (Suc (Suc (Suc (Suc t))))),
      Suc (Suc (Suc (Suc (Suc (Suc (Suc t))))))]"

text \<open>
  The winners of the four rounds, for the table \<open>tbl\<close> and the samples of \<open>g\<close> from number
  \<open>d\<close> on, and the instance after each round of a tournament started in the world \<open>w\<close>.
\<close>

definition round1_winners :: "win_probability_dictionary \<Rightarrow> (nat \<Rightarrow> real) \<Rightarrow> nat \<Rightarrow> int list" where
  "round1_winners tbl g d = winners tbl g d first_round"

definition round2_winners :: "win_probability_dictionary \<Rightarrow> (nat \<Rightarrow> real) \<Rightarrow> nat \<Rightarrow> int list" where
  "round2_winners tbl g d = winners tbl g (d + 8) (pairing (round1_winners tbl g d))"

definition round3_winners :: "win_probability_dictionary \<Rightarrow> (nat \<Rightarrow> real) \<Rightarrow> nat \<Rightarrow> int list" where
  "round3_winners tbl g d = winners tbl g (d + 12) (pairing (round2_winners tbl g d))"

definition round4_winners :: "win_probability_dictionary \<Rightarrow> (nat \<Rightarrow> real) \<Rightarrow> nat \<Rightarrow> int list" where
  "round4_winners tbl g d = winners tbl g (d + 14) (pairing (round3_winners tbl g d))"

definition after_round1 :: "win_probability_dictionary \<Rightarrow> world \<Rightarrow> bracket" where
  "after_round1 tbl w =
     round_result (RegionBracket SEED_PATH_DICTIONARY tbl w)
       (round1_winners tbl (rng w) (draws w)) (slot_paths (top w))"

definition after_round2 :: "win_probability_dictionary \<Rightarrow> world \<Rightarrow> bracket" where
  "after_round2 tbl w =
     round_result (after_round1 tbl w)
       (round2_winners tbl (rng w) (draws w)) (take 4 (slot_paths (top w)))"

definition after_round3 :: "win_probability_dictionary \<Rightarrow> world \<Rightarrow> bracket" where
  "after_round3 tbl w =
     round_result (after_round2 tbl w)
       (round3_winners tbl (rng w) (draws w)) (take 2 (slot_paths (top w)))"

definition after_round4 :: "win_probability_dictionary \<Rightarrow> world \<Rightarrow> bracket" where
  "after_round4 tbl w =
     round_result (after_round3 tbl w)
       (round4_winners tbl (rng w) (draws w)) (take 1 (slot_paths (top w)))"

text \<open>
  A complete table: the lookup succeeds for any two different seeds of \<open>1..16\<close>, with a
  probability in the unit interval.
\<close>

definition complete_table :: "win_probability_dictionary \<Rightarrow> bool" where
  "complete_table tbl =
     (\<forall>a \<in> set [1..16]. \<forall>b \<in> set [1..16]. a = b \<or>
        (case extract_win_probability_by_seed tbl a b of
           Inl e \<Rightarrow> False
         | Inr p \<Rightarrow> 0 \<le> p \<and> p \<le> 1))"

text \<open>
  Two complete tables for the examples: in \<open>upset_table\<close> the seed with the greater number
  beats the other with probability one (the entry \<open>a \<rightarrow> b\<close> for \<open>a < b\<close> is \<open>0\<close>), in
  \<open>chalk_table\<close> the seed with the smaller number does.
\<close>

definition upset_table :: win_probability_dictionary where
  "upset_table = map (\<lambda>a. (a, map (\<lambda>b. (b, 0)) [a + 1..16])) [1..16]"

definition chalk_table :: win_probability_dictionary where
  "chalk_table = map (\<lambda>a. (a, map (\<lambda>b. (b, 1)) [a + 1..16])) [1..16]"

text \<open>
  A table of certainties: every probability in it is \<open>0\<close> or \<open>1\<close>. Samples of the unit
  interval, as the generator delivers them, and a stream of such samples. For a table of
  certainties the specification's chain of deterministic wins: \<open>chained\<close> plays a list of
  matchups, the first seed winning when it beats the second with probability one, and
  \<open>chained_champion\<close> plays the four rounds of the bracket.
\<close>

definition binary_table :: "win_probability_dictionary \<Rightarrow> bool" where
  "binary_table tbl = (\<forall>row \<in> snd ` set tbl. \<forall>p \<in> snd ` set row. p = 0 \<or> p = 1)"

definition unit_samples :: "(nat \<Rightarrow> real) \<Rightarrow> bool" where
  "unit_samples g = (\<forall>n. 0 \<le> g n \<and> g n < 1)"

definition fair_coin :: "nat \<Rightarrow> real" where
  "fair_coin n = 1 / 2"

definition chained :: "win_probability_dictionary \<Rightarrow> (int \<times> int) list \<Rightarrow> int list" where
  "chained tbl ms = map (\<lambda>m. if win_probability tbl (fst m) (snd m) = 1 then fst m else snd m) ms"

definition chained_champion :: "win_probability_dictionary \<Rightarrow> int list" where
  "chained_champion tbl =
     chained tbl (pairing (chained tbl (pairing (chained tbl (pairing (chained tbl first_round))))))"

text \<open>
  The invariant of \<^verbatim>\<open>points_by_seed\<close>: the keys \<open>1..16\<close>, in that order, and no value
  negative; and the order in which it grows: every seed has at least the points it had.
\<close>

definition points_valid :: "(int \<times> int) list \<Rightarrow> bool" where
  "points_valid P = (map fst P = [1..16] \<and> (\<forall>v \<in> snd ` set P. 0 \<le> v))"

definition points_grow :: "(int \<times> int) list \<Rightarrow> (int \<times> int) list \<Rightarrow> bool" where
  "points_grow P P' =
     (\<forall>k \<in> set [1..16]. \<exists>v v'. map_of P k = Some v \<and> map_of P' k = Some v' \<and> v \<le> v')"

text \<open>
  What the rounds keep of an instance \<open>b\<close>: the lists at the addresses below \<open>t0\<close>, the
  references to the caller's schedule and table, and the allocation pointer and the
  stream of the generator.
\<close>

definition kept :: "addr \<Rightarrow> bracket \<Rightarrow> bracket \<Rightarrow> bool" where
  "kept t0 b b' =
     ((\<forall>a < t0. heap b' a = heap b a)
      \<and> seed_path_dictionary b' = seed_path_dictionary b
      \<and> win_probability_dictionary b' = win_probability_dictionary b
      \<and> top b' = top b \<and> rng b' = rng b)"

text \<open>
  Two runs of the rounds that differ only in where the copied lists stand in the store
  and in the samples they take. The function \<open>f\<close> sends an address of the first run to
  the address that holds the same list in the second; \<open>A\<close> is the set of the addresses the
  first run uses. \<open>relocate t t'\<close> moves the addresses from \<open>t\<close> on to the addresses from
  \<open>t'\<close> on.
\<close>

definition same_locals :: "(addr \<Rightarrow> addr) \<Rightarrow> addr set \<Rightarrow> locals \<Rightarrow> locals \<Rightarrow> bool" where
  "same_locals f A l l' =
     (visited l' = visited l \<and> current_opponent l' = current_opponent l
      \<and> updated_matchup_state l' = map (apsnd f) (updated_matchup_state l)
      \<and> snd ` set (updated_matchup_state l) \<subseteq> A)"

definition same_result ::
  "(addr \<Rightarrow> addr) \<Rightarrow> addr set \<Rightarrow> error + locals \<Rightarrow> error + locals \<Rightarrow> bool" where
  "same_result f A r r' =
     (case r of
        Inl e \<Rightarrow> r' = Inl e
      | Inr l \<Rightarrow> (case r' of Inl e' \<Rightarrow> False | Inr l' \<Rightarrow> same_locals f A l l'))"

definition same_run :: "(addr \<Rightarrow> addr) \<Rightarrow> addr set \<Rightarrow> bracket \<Rightarrow> bracket \<Rightarrow> bool" where
  "same_run f A b b' =
     (win_probability_dictionary b' = win_probability_dictionary b
      \<and> points_by_seed b' = points_by_seed b
      \<and> current_matchup_state b' = map (apsnd f) (current_matchup_state b)
      \<and> snd ` set (current_matchup_state b) \<subseteq> A
      \<and> (\<forall>a \<in> A. heap b' (f a) = heap b a)
      \<and> unit_samples (rng b) \<and> unit_samples (rng b'))"

definition relocate :: "addr \<Rightarrow> addr \<Rightarrow> addr \<Rightarrow> addr" where
  "relocate t t' a = t' + (a - t)"

section \<open>Floating point numbers\<close>

text \<open>
  A Python \<^verbatim>\<open>float\<close> and an entry of a \<^verbatim>\<open>float64\<close> array are IEEE 754 binary64 numbers:
  \<open>Finite x\<close> is the finite number of value \<open>x\<close> (the two zeros are both \<open>Finite 0\<close>, the
  sign of a zero plays no part below), \<open>PInf\<close> and \<open>NInf\<close> are the infinities.
\<close>

datatype float64 = Finite real | PInf | NInf | NaN

text \<open>The nearest integer, the even one of the two at a tie.\<close>

definition round_half_even :: "real \<Rightarrow> int" where
  "round_half_even y =
     (let n = \<lfloor>y\<rfloor>; r = y - of_int n
      in if r < 1 / 2 then n else if 1 / 2 < r then n + 1 else if even n then n else n + 1)"

text \<open>
  A finite binary64 number is \<open>m * 2 ^ k\<close> for integers \<open>\<bar>m\<bar> < 2 ^ 53\<close> and
  \<open>- 1074 \<le> k \<le> 971\<close>. The numbers next to a real \<open>x\<close> are the multiples of \<open>2 ^ k\<close> for
  the least such \<open>k\<close> with \<open>\<bar>x\<bar> < 2 ^ (k + 53)\<close>: \<open>ulp_up\<close> looks for it upwards from \<open>1\<close>
  when \<open>2 ^ 53 \<le> \<bar>x\<bar>\<close> and finds none from \<open>2 ^ 1024\<close> on, \<open>ulp_down\<close> looks for it
  downwards from \<open>0\<close> otherwise.
\<close>

function ulp_up :: "real \<Rightarrow> int \<Rightarrow> int option" where
  "ulp_up x k =
     (if 971 < k then None else if x < 2 powi (k + 53) then Some k else ulp_up x (k + 1))"
  by auto
termination
  by (relation "measure (\<lambda>(x, k). nat (972 - k))") auto

function ulp_down :: "real \<Rightarrow> int \<Rightarrow> int" where
  "ulp_down x k =
     (if k \<le> - 1074 then - 1074 else if 2 powi (k + 52) \<le> x then k else ulp_down x (k - 1))"
  by auto
termination
  by (relation "measure (\<lambda>(x, k). nat (k + 1074))") auto

definition float64_ulp_exponent :: "real \<Rightarrow> int option" where
  "float64_ulp_exponent x =
     (if 2 ^ 53 \<le> \<bar>x\<bar> then ulp_up \<bar>x\<bar> 1 else Some (ulp_down \<bar>x\<bar> 0))"

text \<open>
  Rounding to nearest, ties to even, which every binary64 operation applies to its exact
  result; a result that reaches \<open>2 ^ 1024\<close> is an infinity.
\<close>

definition float64_round :: "real \<Rightarrow> float64" where
  "float64_round x =
     (case float64_ulp_exponent x of
        None \<Rightarrow> (if x < 0 then NInf else PInf)
      | Some k \<Rightarrow>
          (let m = round_half_even (x / 2 powi k)
           in if k = 971 \<and> \<bar>m\<bar> = 2 ^ 53 then (if x < 0 then NInf else PInf)
              else Finite (of_int m * 2 powi k)))"

text \<open>
  The operations of line 115: the conversion of an integer of the array to binary64, the
  subtraction, the absolute value; and the comparison \<^verbatim>\<open>>=\<close>, which is false as soon as
  one side is not a number.
\<close>

definition float64_of_int :: "int \<Rightarrow> float64" where
  "float64_of_int c = float64_round (real_of_int c)"

fun float64_sub :: "float64 \<Rightarrow> float64 \<Rightarrow> float64" where
  "float64_sub NaN y = NaN"
| "float64_sub x NaN = NaN"
| "float64_sub PInf PInf = NaN"
| "float64_sub NInf NInf = NaN"
| "float64_sub PInf y = PInf"
| "float64_sub NInf y = NInf"
| "float64_sub (Finite x) PInf = NInf"
| "float64_sub (Finite x) NInf = PInf"
| "float64_sub (Finite x) (Finite y) = float64_round (x - y)"

fun float64_abs :: "float64 \<Rightarrow> float64" where
  "float64_abs (Finite x) = Finite \<bar>x\<bar>"
| "float64_abs PInf = PInf"
| "float64_abs NInf = PInf"
| "float64_abs NaN = NaN"

fun float64_ge :: "float64 \<Rightarrow> float64 \<Rightarrow> bool" where
  "float64_ge NaN y = False"
| "float64_ge x NaN = False"
| "float64_ge PInf y = True"
| "float64_ge x NInf = True"
| "float64_ge NInf y = False"
| "float64_ge x PInf = False"
| "float64_ge (Finite x) (Finite y) = (y \<le> x)"

section \<open>The discretizer\<close>

definition SINGLE_REGION_SEARCH_SPACE :: "int list" where
  "SINGLE_REGION_SEARCH_SPACE = [1, 2, 3, 4, 5, 6, 7, 8, 9, 10, 11, 12, 13, 14, 15, 16]"

text \<open>
  \<^verbatim>\<open>np.argmin\<close> on a \<^verbatim>\<open>float64\<close> array: one scan that keeps the index \<open>min_ind\<close> of the
  least entry \<open>mp\<close> so far and moves to a later index only for an entry \<open>x\<close> with
  \<^verbatim>\<open>!(x >= mp)\<close>, so that the first occurrence of the minimum wins; the scan stops at the
  first entry that is not a number, which counts as the minimum. An empty array raises.
\<close>

fun argmin_scan :: "float64 list \<Rightarrow> nat \<Rightarrow> nat \<Rightarrow> float64 \<Rightarrow> nat" where
  "argmin_scan [] i min_ind mp = min_ind"
| "argmin_scan (x # xs) i min_ind mp =
     (if \<not> float64_ge x mp
      then (if x = NaN then i else argmin_scan xs (Suc i) i x)
      else argmin_scan xs (Suc i) min_ind mp)"

fun np_argmin :: "float64 list \<Rightarrow> error + nat" where
  "np_argmin [] = Inl ValueError_argmin_empty"
| "np_argmin (x # xs) = Inr (if x = NaN then 0 else argmin_scan xs 1 0 x)"

text \<open>\<^verbatim>\<open>np.delete(arr, idx)\<close> for an index inside the array.\<close>

definition np_delete :: "'a list \<Rightarrow> nat \<Rightarrow> 'a list" where
  "np_delete arr idx = take idx arr @ drop (Suc idx) arr"

text \<open>
  One entry of \<^verbatim>\<open>abs(search_space_arr - value)\<close>: the candidate \<open>c\<close> of the integer array
  is converted to binary64, \<open>value\<close> is subtracted with one rounding, and the absolute
  value is taken.
\<close>

definition computed_distance :: "float64 \<Rightarrow> int \<Rightarrow> float64" where
  "computed_distance v c = float64_abs (float64_sub (float64_of_int c) v)"

text \<open>
  The loop \<^verbatim>\<open>for value in continuous_input_arr\<close>, with its two loop-carried variables
  \<^verbatim>\<open>search_space_arr\<close> and \<^verbatim>\<open>output_values\<close>.
\<close>

fun clip_loop :: "float64 list \<Rightarrow> bool \<Rightarrow> int list \<Rightarrow> int list \<Rightarrow> error + int list" where
  "clip_loop [] replace search_space_arr output_values = Inr output_values"
| "clip_loop (v # vs) replace search_space_arr output_values =
     (case np_argmin (map (computed_distance v) search_space_arr) of
        Inl e \<Rightarrow> Inl e
      | Inr nearest_neighbor_idx \<Rightarrow>
          clip_loop vs replace
            (if \<not> replace then np_delete search_space_arr nearest_neighbor_idx
             else search_space_arr)
            (output_values @ [search_space_arr ! nearest_neighbor_idx]))"

definition clip_continuous_inputs_to_discrete_search_space ::
  "float64 list \<Rightarrow> int list option \<Rightarrow> bool \<Rightarrow> error + int list" where
  "clip_continuous_inputs_to_discrete_search_space continuous_input_arr discrete_search_space replace =
     clip_loop continuous_input_arr replace
       (case discrete_search_space of None \<Rightarrow> SINGLE_REGION_SEARCH_SPACE | Some s \<Rightarrow> s) []"

text \<open>
  What is left of the candidate space once the values \<open>chosen\<close> are taken out, in the
  order of the space. The order in which \<^verbatim>\<open>np.argmin\<close> compares two entries: \<open>argmin_le a b\<close>
  when \<open>a\<close> is not a number or \<open>b >= a\<close>. What it is for \<open>y\<close> to be the nearest candidate to
  \<open>x\<close> in a working copy \<open>rem\<close> by the computed distances, the earliest position winning a
  tie.
\<close>

definition remaining :: "int list \<Rightarrow> int list \<Rightarrow> int list" where
  "remaining cs chosen = filter (\<lambda>c. c \<notin> set chosen) cs"

definition argmin_le :: "float64 \<Rightarrow> float64 \<Rightarrow> bool" where
  "argmin_le a b = (a = NaN \<or> float64_ge b a)"

definition nearest_first :: "int list \<Rightarrow> float64 \<Rightarrow> int \<Rightarrow> bool" where
  "nearest_first rem x y =
     (\<exists>k < length rem. rem ! k = y
        \<and> (\<forall>j < length rem. argmin_le (computed_distance x y) (computed_distance x (rem ! j)))
        \<and> (\<forall>j < k. \<not> argmin_le (computed_distance x (rem ! j)) (computed_distance x y)))"

text \<open>
  The specification's nearest candidate, for a finite input of value \<open>x\<close>: by the exact
  distances \<open>\<bar>c - x\<bar>\<close>, the earliest position winning a tie.
\<close>

definition nearest_in_reals :: "int list \<Rightarrow> real \<Rightarrow> int \<Rightarrow> bool" where
  "nearest_in_reals rem x y =
     (\<exists>k < length rem. rem ! k = y
        \<and> (\<forall>j < length rem. \<bar>real_of_int y - x\<bar> \<le> \<bar>real_of_int (rem ! j) - x\<bar>)
        \<and> (\<forall>j < k. \<bar>real_of_int y - x\<bar> < \<bar>real_of_int (rem ! j) - x\<bar>))"

text \<open>The index \<open>r\<close> is the first position of the minimum of \<open>ys\<close> in that order.\<close>

definition first_min :: "float64 list \<Rightarrow> nat \<Rightarrow> bool" where
  "first_min ys r =
     (r < length ys \<and> (\<forall>j < length ys. argmin_le (ys ! r) (ys ! j))
      \<and> (\<forall>j < r. \<not> argmin_le (ys ! j) (ys ! r)))"

section \<open>Properties of the probability lookup\<close>

lemma extract_forward:
  "table_entry tbl a b = Some p \<Longrightarrow> extract_win_probability_by_seed tbl a b = Inr p"
  by (auto simp: table_entry_def extract_win_probability_by_seed_def split: option.splits)

lemma extract_backward:
  "table_entry tbl a b = None \<Longrightarrow> table_entry tbl b a = Some q \<Longrightarrow>
   extract_win_probability_by_seed tbl a b = Inr (1 - q)"
  by (auto simp: table_entry_def extract_win_probability_by_seed_def split: option.splits)

lemma extract_missing:
  "table_entry tbl a b = None \<Longrightarrow> table_entry tbl b a = None \<Longrightarrow>
   extract_win_probability_by_seed tbl a b = Inl (ValueError_missing_matchup a b)"
  by (auto simp: table_entry_def extract_win_probability_by_seed_def split: option.splits)

lemma extract_error_is_missing:
  "extract_win_probability_by_seed tbl a b = Inl e \<Longrightarrow> e = ValueError_missing_matchup a b"
  by (auto simp: extract_win_probability_by_seed_def split: option.splits if_splits)

lemma extract_fails_iff:
  "(\<exists>e. extract_win_probability_by_seed tbl a b = Inl e)
   \<longleftrightarrow> table_entry tbl a b = None \<and> table_entry tbl b a = None"
proof (cases "table_entry tbl a b")
  case None
  show ?thesis
  proof (cases "table_entry tbl b a")
    case None
    with \<open>table_entry tbl a b = None\<close> show ?thesis by (simp add: extract_missing)
  next
    case (Some q)
    with \<open>table_entry tbl a b = None\<close> show ?thesis by (simp add: extract_backward)
  qed
next
  case (Some p)
  then show ?thesis by (simp add: extract_forward)
qed

text \<open>
  C2. When the table holds the pair \<open>(a, b)\<close> in the one direction \<open>a \<rightarrow> b\<close>, with value
  \<open>p\<close>, and has no entry \<open>b \<rightarrow> a\<close>, the lookup called as \<open>(a, b)\<close> returns \<open>p\<close> and the
  lookup called as \<open>(b, a)\<close> returns \<open>1 - p\<close>.
\<close>

theorem symmetric_lookup:
  assumes "table_entry tbl a b = Some p" and "table_entry tbl b a = None"
  shows "extract_win_probability_by_seed tbl a b = Inr p
       \<and> extract_win_probability_by_seed tbl b a = Inr (1 - p)"
  using assms by (simp add: extract_forward extract_backward)

theorem symmetric_lookup_witness:
  "table_entry [(1, [(16, 0.75)])] 1 16 = Some 0.75
   \<and> table_entry [(1, [(16, 0.75)])] 16 1 = None
   \<and> extract_win_probability_by_seed [(1, [(16, 0.75)])] 1 16 = Inr 0.75
   \<and> extract_win_probability_by_seed [(1, [(16, 0.75)])] 16 1 = Inr 0.25"
  using symmetric_lookup [of "[(1, [(16, 0.75)])]" 1 16 "0.75"]
  by (simp add: table_entry_def)

section \<open>The loop body\<close>

lemma contestants_simps [simp]:
  "contestants [] = []"
  "contestants ((s, opp, a) # ms) = (s, opp) # contestants ms"
  by (simp_all add: contestants_def)

lemma paths_simps [simp]:
  "paths [] = []"
  "paths ((s, opp, a) # ms) = a # paths ms"
  by (simp_all add: paths_def)

lemma contestants_length [simp]: "length (contestants ms) = length ms"
  by (simp add: contestants_def)

lemma paths_length [simp]: "length (paths ms) = length ms"
  by (simp add: paths_def)


lemma select_opponent_updated [simp]:
  "updated_matchup_state (select_opponent keys l d) = updated_matchup_state l"
  by (simp add: select_opponent_def split: descr.splits option.splits)

lemma select_opponent_cong:
  "visited l2 = visited l \<Longrightarrow> current_opponent l2 = current_opponent l \<Longrightarrow>
   visited (select_opponent keys l2 d) = visited (select_opponent keys l d)
   \<and> current_opponent (select_opponent keys l2 d) = current_opponent (select_opponent keys l d)"
  by (simp add: select_opponent_def split: descr.splits option.splits)

lemma round_body_skip:
  "seed \<in> visited l \<Longrightarrow> round_body seed a l b = (Inr l, b)"
  by (simp add: round_body_def)

lemma round_body_play:
  assumes "seed \<notin> visited l" and "heap b a = d # rest"
    and "current_opponent (select_opponent (map fst (current_matchup_state b)) l d) = Some opp"
    and "extract_win_probability_by_seed (win_probability_dictionary b) seed opp = Inr p"
    and "0 \<le> p" and "p \<le> 1"
    and "W = (if rng b (draws b) < p then seed else opp)"
    and "map_of (points_by_seed b) W = Some pts"
  shows "round_body seed a l b =
     (Inr ((select_opponent (map fst (current_matchup_state b)) l d)
             \<lparr>updated_matchup_state := AList.update W a (updated_matchup_state l)\<rparr>),
      b\<lparr>heap := (heap b)(a := rest), draws := Suc (draws b),
        points_by_seed := AList.update W (pts + W) (points_by_seed b)\<rparr>)"
  using assms by (simp add: round_body_def Let_def)

lemma round_body_missing:
  assumes "seed \<notin> visited l" and "heap b a = d # rest"
    and "current_opponent (select_opponent (map fst (current_matchup_state b)) l d) = Some opp"
    and "extract_win_probability_by_seed (win_probability_dictionary b) seed opp = Inl e"
  shows "round_body seed a l b = (Inl e, b\<lparr>heap := (heap b)(a := rest)\<rparr>)"
  using assms by (simp add: round_body_def Let_def)

lemma round_body_empty:
  "seed \<notin> visited l \<Longrightarrow> heap b a = [] \<Longrightarrow> round_body seed a l b = (Inl IndexError_pop, b)"
  by (simp add: round_body_def)

lemma round_body_unbound:
  assumes "seed \<notin> visited l" and "heap b a = d # rest"
    and "current_opponent (select_opponent (map fst (current_matchup_state b)) l d) = None"
  shows "round_body seed a l b = (Inl UnboundLocalError, b\<lparr>heap := (heap b)(a := rest)\<rparr>)"
  using assms by (simp add: round_body_def Let_def)

lemma round_body_keyerror:
  assumes "seed \<notin> visited l" and "heap b a = d # rest"
    and "current_opponent (select_opponent (map fst (current_matchup_state b)) l d) = Some opp"
    and "extract_win_probability_by_seed (win_probability_dictionary b) seed opp = Inr p"
    and "0 \<le> p" and "p \<le> 1"
    and "W = (if rng b (draws b) < p then seed else opp)"
    and "map_of (points_by_seed b) W = None"
  shows "round_body seed a l b =
     (Inl (KeyError W), b\<lparr>heap := (heap b)(a := rest), draws := Suc (draws b)\<rparr>)"
  using assms by (simp add: round_body_def Let_def)

lemma round_body_resolved:
  assumes run: "round_body seed a l b = (Inr l', b')" and nv: "seed \<notin> visited l"
  shows "\<exists>d rest opp p pts W.
      heap b a = d # rest
    \<and> current_opponent (select_opponent (map fst (current_matchup_state b)) l d) = Some opp
    \<and> extract_win_probability_by_seed (win_probability_dictionary b) seed opp = Inr p
    \<and> 0 \<le> p \<and> p \<le> 1
    \<and> W = (if rng b (draws b) < p then seed else opp)
    \<and> map_of (points_by_seed b) W = Some pts
    \<and> l' = (select_opponent (map fst (current_matchup_state b)) l d)
             \<lparr>updated_matchup_state := AList.update W a (updated_matchup_state l)\<rparr>
    \<and> b' = b\<lparr>heap := (heap b)(a := rest), draws := Suc (draws b),
        points_by_seed := AList.update W (pts + W) (points_by_seed b)\<rparr>"
proof -
  obtain d rest where h: "heap b a = d # rest"
    using run nv by (cases "heap b a") (simp_all add: round_body_def)
  define l1 where "l1 = select_opponent (map fst (current_matchup_state b)) l d"
  obtain opp where opp: "current_opponent l1 = Some opp"
    using run nv h by (cases "current_opponent l1") (simp_all add: round_body_def l1_def)
  obtain p where p: "extract_win_probability_by_seed (win_probability_dictionary b) seed opp = Inr p"
    using run nv h opp
    by (cases "extract_win_probability_by_seed (win_probability_dictionary b) seed opp")
       (simp_all add: round_body_def l1_def)
  have range: "0 \<le> p \<and> p \<le> 1"
  proof (rule ccontr)
    assume "\<not> (0 \<le> p \<and> p \<le> 1)"
    then have "p < 0 \<or> 1 < p" by auto
    with run nv h opp p show False by (simp add: round_body_def l1_def)
  qed
  define W where "W = (if rng b (draws b) < p then seed else opp)"
  obtain pts where pts: "map_of (points_by_seed b) W = Some pts"
    using run nv h opp p range
    by (cases "map_of (points_by_seed b) W")
       (simp_all add: round_body_def l1_def W_def Let_def not_less [symmetric])
  have "round_body seed a l b =
     (Inr (l1\<lparr>updated_matchup_state := AList.update W a (updated_matchup_state l)\<rparr>),
      b\<lparr>heap := (heap b)(a := rest), draws := Suc (draws b),
        points_by_seed := AList.update W (pts + W) (points_by_seed b)\<rparr>)"
    unfolding l1_def
    by (rule round_body_play [OF nv h opp [unfolded l1_def] p _ _ W_def pts])
       (use range in auto)
  with run have "l' = l1\<lparr>updated_matchup_state := AList.update W a (updated_matchup_state l)\<rparr>"
    and "b' = b\<lparr>heap := (heap b)(a := rest), draws := Suc (draws b),
        points_by_seed := AList.update W (pts + W) (points_by_seed b)\<rparr>"
    by simp_all
  with h opp p range pts W_def show ?thesis unfolding l1_def by blast
qed


lemma round_body_frame:
  "rng (snd (round_body seed a l b)) = rng b
   \<and> top (snd (round_body seed a l b)) = top b
   \<and> seed_path_dictionary (snd (round_body seed a l b)) = seed_path_dictionary b
   \<and> win_probability_dictionary (snd (round_body seed a l b)) = win_probability_dictionary b
   \<and> current_matchup_state (snd (round_body seed a l b)) = current_matchup_state b"
  by (simp add: round_body_def Let_def split: list.split option.split sum.split)

lemma round_body_heap_other:
  "a' \<noteq> a \<Longrightarrow> heap (snd (round_body seed a l b)) a' = heap b a'"
  by (simp add: round_body_def Let_def split: list.split option.split sum.split)

lemma round_body_error:
  "round_body seed a l b = (Inl e, b') \<Longrightarrow>
   points_by_seed b' = points_by_seed b \<and> draws b' \<le> Suc (draws b) \<and> draws b \<le> draws b'"
  by (auto simp: round_body_def Let_def split: list.splits option.splits sum.splits if_splits)

lemma complete_lookup:
  assumes "complete_table tbl" and "1 \<le> a" and "a \<le> 16" and "1 \<le> b" and "b \<le> 16" and "a \<noteq> b"
  shows "extract_win_probability_by_seed tbl a b = Inr (win_probability tbl a b)
       \<and> 0 \<le> win_probability tbl a b \<and> win_probability tbl a b \<le> 1"
proof -
  from assms have "a \<in> set [1..16]" and "b \<in> set [1..16]" by simp_all
  with assms(1,6) have
    "case extract_win_probability_by_seed tbl a b of Inl e \<Rightarrow> False | Inr p \<Rightarrow> 0 \<le> p \<and> p \<le> 1"
    unfolding complete_table_def by blast
  then show ?thesis
    by (cases "extract_win_probability_by_seed tbl a b") (simp_all add: win_probability_def)
qed

lemma points_lookup:
  assumes "map fst P = [1..16]" and "1 \<le> k" and "k \<le> 16"
  shows "\<exists>v. map_of P k = Some v"
proof -
  have "k \<in> set (map fst P)" using assms by simp
  then have "map_of P k \<noteq> None" by (simp add: map_of_eq_None_iff)
  then show ?thesis by auto
qed

lemma update_present_keys:
  "map_of P k = Some v \<Longrightarrow> map fst (AList.update k v' P) = map fst P"
  by (auto simp: AList.update_keys dest: map_of_SomeD intro: rev_image_eqI)




lemma round_matchups_cong:
  "visited l2 = visited l \<Longrightarrow> current_opponent l2 = current_opponent l \<Longrightarrow>
   round_matchups keys items l2 h = round_matchups keys items l h"
proof (induction items arbitrary: l l2 h)
  case Nil
  then show ?case by simp
next
  case (Cons item items)
  obtain seed a where item: "item = (seed, a)" by (cases item)
  note vis = Cons.prems(1) and cur = Cons.prems(2)
  show ?case
  proof (cases "seed \<in> visited l")
    case True
    have "round_matchups keys items l2 h = round_matchups keys items l h"
      using vis cur by (rule Cons.IH)
    with True vis show ?thesis by (simp add: item)
  next
    case False
    show ?thesis
    proof (cases "h a")
      case Nil
      with False vis show ?thesis by (simp add: item)
    next
      case (Cons d rest)
      note ha = this
      from select_opponent_cong [OF vis cur, of keys d]
      have v: "visited (select_opponent keys l2 d) = visited (select_opponent keys l d)"
        and c: "current_opponent (select_opponent keys l2 d)
              = current_opponent (select_opponent keys l d)" by simp_all
      have "round_matchups keys items (select_opponent keys l2 d) (h(a := rest))
          = round_matchups keys items (select_opponent keys l d) (h(a := rest))"
        using v c by (rule Cons.IH)
      with False vis ha c show ?thesis by (simp add: item split: option.split)
    qed
  qed
qed



lemma round_loop_matchups:
  assumes "round_matchups (map fst (current_matchup_state b)) items l (heap b) = Some ms"
    and "complete_table (win_probability_dictionary b)"
    and "map fst (points_by_seed b) = [1..16]"
    and "\<forall>(s, opp, a) \<in> set ms. 1 \<le> s \<and> s \<le> 16 \<and> 1 \<le> opp \<and> opp \<le> 16 \<and> s \<noteq> opp"
  shows "\<exists>l'. round_loop items l b =
           (Inr l', b\<lparr>heap := pop_paths (paths ms) (heap b),
                      draws := draws b + length ms,
                      points_by_seed :=
                        award (winners (win_probability_dictionary b) (rng b) (draws b) (contestants ms))
                          (points_by_seed b)\<rparr>)
       \<and> updated_matchup_state l' =
           advance (zip (winners (win_probability_dictionary b) (rng b) (draws b) (contestants ms))
                        (paths ms)) (updated_matchup_state l)"
  using assms
proof (induction items arbitrary: l b ms)
  case Nil
  then show ?case by simp
next
  case (Cons item items)
  obtain seed a where item: "item = (seed, a)" by (cases item)
  let ?keys = "map fst (current_matchup_state b)"
  show ?case
  proof (cases "seed \<in> visited l")
    case True
    then have "round_matchups ?keys items l (heap b) = Some ms"
      using Cons.prems(1) by (simp add: item)
    from Cons.IH [OF this Cons.prems(2,3,4)] True show ?thesis
      by (simp add: item round_body_skip)
  next
    case False
    obtain d rest where h: "heap b a = d # rest"
      using Cons.prems(1) False by (cases "heap b a") (simp_all add: item)
    let ?l1 = "select_opponent ?keys l d"
    obtain opp where opp: "current_opponent ?l1 = Some opp"
      using Cons.prems(1) False h by (cases "current_opponent ?l1") (simp_all add: item)
    obtain ms' where ms': "round_matchups ?keys items ?l1 ((heap b)(a := rest)) = Some ms'"
      and ms: "ms = (seed, opp, a) # ms'"
      using Cons.prems(1) False h opp by (auto simp: item)
    from Cons.prems(4) ms have seeds: "1 \<le> seed" "seed \<le> 16" "1 \<le> opp" "opp \<le> 16" "seed \<noteq> opp"
      by simp_all
    let ?tbl = "win_probability_dictionary b"
    let ?p = "win_probability ?tbl seed opp"
    from complete_lookup [OF Cons.prems(2) seeds]
    have look: "extract_win_probability_by_seed ?tbl seed opp = Inr ?p"
      and p0: "0 \<le> ?p" and p1: "?p \<le> 1" by simp_all
    let ?W = "winner ?tbl (rng b) (draws b) seed opp"
    have W: "?W = (if rng b (draws b) < ?p then seed else opp)" by (simp add: winner_def)
    have "1 \<le> ?W \<and> ?W \<le> 16" using seeds by (simp add: winner_def)
    with points_lookup [OF Cons.prems(3)] obtain pts where
      pts: "map_of (points_by_seed b) ?W = Some pts" by blast
    let ?l2 = "?l1\<lparr>updated_matchup_state := AList.update ?W a (updated_matchup_state l)\<rparr>"
    let ?b2 = "b\<lparr>heap := (heap b)(a := rest), draws := Suc (draws b),
        points_by_seed := AList.update ?W (pts + ?W) (points_by_seed b)\<rparr>"
    have body: "round_body seed a l b = (Inr ?l2, ?b2)"
      by (rule round_body_play [OF False h opp look p0 p1 W pts])
    have "round_matchups ?keys items ?l2 ((heap b)(a := rest)) = Some ms'"
      using ms' round_matchups_cong [of ?l2 ?l1 ?keys items "(heap b)(a := rest)"] by simp
    then have m2: "round_matchups (map fst (current_matchup_state ?b2)) items ?l2 (heap ?b2) = Some ms'"
      by simp
    have t2: "complete_table (win_probability_dictionary ?b2)" using Cons.prems(2) by simp
    have k2: "map fst (points_by_seed ?b2) = [1..16]"
      using Cons.prems(3) update_present_keys [OF pts] by simp
    have s2: "\<forall>(s, opp, a) \<in> set ms'. 1 \<le> s \<and> s \<le> 16 \<and> 1 \<le> opp \<and> opp \<le> 16 \<and> s \<noteq> opp"
      using Cons.prems(4) ms by simp
    from Cons.IH [OF m2 t2 k2 s2] obtain l' where
      loop: "round_loop items ?l2 ?b2 =
           (Inr l', ?b2\<lparr>heap := pop_paths (paths ms') (heap ?b2),
                      draws := draws ?b2 + length ms',
                      points_by_seed :=
                        award (winners (win_probability_dictionary ?b2) (rng ?b2) (draws ?b2) (contestants ms'))
                          (points_by_seed ?b2)\<rparr>)"
      and upd: "updated_matchup_state l' =
           advance (zip (winners (win_probability_dictionary ?b2) (rng ?b2) (draws ?b2) (contestants ms'))
                        (paths ms')) (updated_matchup_state ?l2)"
      by blast
    have step: "round_loop (item # items) l b = round_loop items ?l2 ?b2"
      by (simp add: item body)
    have w: "winners ?tbl (rng b) (draws b) (contestants ms) = ?W # winners ?tbl (rng b) (Suc (draws b)) (contestants ms')"
      by (simp add: ms contestants_def)
    have aw: "award (winners ?tbl (rng b) (draws b) (contestants ms)) (points_by_seed b)
        = award (winners ?tbl (rng b) (Suc (draws b)) (contestants ms'))
            (AList.update ?W (pts + ?W) (points_by_seed b))"
      unfolding w by (simp add: pts)
    have pp: "pop_paths (paths ms) (heap b)
        = pop_paths (paths ms') ((heap b)(a := rest))"
      by (simp add: ms h paths_def)
    have ad: "advance (zip (winners ?tbl (rng b) (draws b) (contestants ms)) (paths ms))
           (updated_matchup_state l)
        = advance (zip (winners ?tbl (rng b) (Suc (draws b)) (contestants ms')) (paths ms'))
           (AList.update ?W a (updated_matchup_state l))"
      unfolding w by (simp add: ms paths_def)
    have len: "draws b + length ms = Suc (draws b) + length ms'" by (simp add: ms)
    have "round_loop (item # items) l b =
           (Inr l', b\<lparr>heap := pop_paths (paths ms) (heap b),
                      draws := draws b + length ms,
                      points_by_seed :=
                        award (winners ?tbl (rng b) (draws b) (contestants ms)) (points_by_seed b)\<rparr>)"
      unfolding aw pp len using step loop by simp
    moreover have "updated_matchup_state l' =
           advance (zip (winners ?tbl (rng b) (draws b) (contestants ms)) (paths ms))
             (updated_matchup_state l)"
      unfolding ad using upd by simp
    ultimately show ?thesis by blast
  qed
qed

section \<open>A round resolves its matchups\<close>

lemma update_fresh: "k \<notin> fst ` set al \<Longrightarrow> AList.update k v al = al @ [(k, v)]"
  by (induction al) auto

lemma advance_fresh:
  "distinct (map fst was) \<Longrightarrow> fst ` set was \<inter> fst ` set u = {} \<Longrightarrow> advance was u = u @ was"
proof (induction was arbitrary: u)
  case Nil
  then show ?case by simp
next
  case (Cons wa was)
  obtain w a where wa: "wa = (w, a)" by (cases wa)
  from Cons.prems have fresh: "w \<notin> fst ` set u" by (auto simp: wa)
  have "advance was (u @ [(w, a)]) = (u @ [(w, a)]) @ was"
    using Cons.prems by (intro Cons.IH) (auto simp: wa)
  then show ?case by (simp add: wa update_fresh [OF fresh])
qed

lemma pop_paths_distinct:
  "distinct as \<Longrightarrow> pop_paths as h a = (if a \<in> set as then tl (h a) else h a)"
  by (induction as arbitrary: h) auto

lemma winner_cases: "P seed \<Longrightarrow> P opp \<Longrightarrow> P (winner tbl g d seed opp)"
  by (simp add: winner_def)

lemma winners_length [simp]: "length (winners tbl g d ms) = length ms"
  by (induction ms arbitrary: d) auto

lemma winners_nth:
  "i < length ms \<Longrightarrow>
   winners tbl g d ms ! i = winner tbl g (d + i) (fst (ms ! i)) (snd (ms ! i))"
proof (induction ms arbitrary: d i)
  case Nil
  then show ?case by simp
next
  case (Cons m ms)
  obtain s opp where m: "m = (s, opp)" by (cases m)
  show ?case
  proof (cases i)
    case 0
    then show ?thesis by (simp add: m)
  next
    case (Suc j)
    with Cons.prems have "j < length ms" by simp
    from Cons.IH [OF this, of "Suc d"] Suc show ?thesis by (simp add: m)
  qed
qed

lemma winners_subset:
  "set (winners tbl g d ms) \<subseteq> fst ` set ms \<union> snd ` set ms"
proof (induction ms arbitrary: d)
  case Nil
  then show ?case by simp
next
  case (Cons m ms)
  obtain s opp where m: "m = (s, opp)" by (cases m)
  have "winner tbl g d s opp \<in> {s, opp}" by (rule winner_cases) simp_all
  with Cons.IH [of "Suc d"] show ?case by (auto simp: m)
qed

lemma winners_distinct:
  "distinct (map fst ms @ map snd ms) \<Longrightarrow> distinct (winners tbl g d ms)"
proof (induction ms arbitrary: d)
  case Nil
  then show ?case by simp
next
  case (Cons m ms)
  obtain s opp where m: "m = (s, opp)" by (cases m)
  from Cons.prems have rest: "distinct (map fst ms @ map snd ms)" by (auto simp: m)
  have out: "s \<notin> fst ` set ms \<union> snd ` set ms" "opp \<notin> fst ` set ms \<union> snd ` set ms"
    using Cons.prems by (auto simp: m)
  have "winner tbl g d s opp \<notin> fst ` set ms \<union> snd ` set ms"
    by (rule winner_cases) (rule out)+
  with winners_subset [of tbl g "Suc d" ms] have "winner tbl g d s opp \<notin> set (winners tbl g (Suc d) ms)"
    by blast
  with Cons.IH [OF rest, of "Suc d"] show ?case by (simp add: m)
qed

lemma award_keys:
  "map fst P = ks \<Longrightarrow> map fst (award ws P) = ks"
proof (induction ws arbitrary: P)
  case Nil
  then show ?case by simp
next
  case (Cons w ws)
  show ?case
  proof (cases "map_of P w")
    case None
    with Cons show ?thesis by simp
  next
    case (Some pts)
    have "map fst (AList.update w (pts + w) P) = ks"
      using update_present_keys [OF Some] Cons.prems by simp
    from Cons.IH [OF this] Some show ?thesis by simp
  qed
qed

lemma simulate_round_plan:
  assumes plan: "round_matchups (map fst (current_matchup_state b)) (current_matchup_state b)
                   initial_locals (heap b) = Some ms"
    and tbl: "complete_table (win_probability_dictionary b)"
    and keys: "map fst (points_by_seed b) = [1..16]"
    and seeds: "\<forall>(s, opp, a) \<in> set ms. 1 \<le> s \<and> s \<le> 16 \<and> 1 \<le> opp \<and> opp \<le> 16 \<and> s \<noteq> opp"
    and dist: "distinct (map fst ms @ map (fst \<circ> snd) ms)"
  shows "simulate_round_and_update_current_state b =
           (None, round_result b
                    (winners (win_probability_dictionary b) (rng b) (draws b) (contestants ms))
                    (paths ms))"
proof -
  let ?ws = "winners (win_probability_dictionary b) (rng b) (draws b)
                (contestants ms)"
  from round_loop_matchups [OF plan tbl keys seeds] obtain l' where
    loop: "round_loop (current_matchup_state b) initial_locals b =
           (Inr l', b\<lparr>heap := pop_paths (paths ms) (heap b),
                      draws := draws b + length ms,
                      points_by_seed := award ?ws (points_by_seed b)\<rparr>)"
    and upd: "updated_matchup_state l' =
           advance (zip ?ws (paths ms)) (updated_matchup_state initial_locals)"
    by blast
  have "map fst (contestants ms) = map fst ms"
    and "map snd (contestants ms) = map (fst \<circ> snd) ms"
    by (simp_all add: contestants_def comp_def)
  with dist have "distinct (map fst (contestants ms) @ map snd (contestants ms))" by simp
  then have dw: "distinct ?ws" by (rule winners_distinct)
  have "map fst (zip ?ws (paths ms)) = ?ws"
    by (simp add: map_fst_zip)
  with dw have "advance (zip ?ws (paths ms)) [] = [] @ zip ?ws (paths ms)"
    by (intro advance_fresh) simp_all
  with upd have "updated_matchup_state l' = zip ?ws (paths ms)"
    by (simp add: initial_locals_def)
  with loop show ?thesis
    by (simp add: simulate_round_and_update_current_state_def round_result_def)
qed

section \<open>The matchups of the four rounds\<close>

lemma plan1:
  assumes d: "distinct [a1, a2, a3, a4, a5, a6, a7, a8]"
    and "h a1 = Seed 16 # r1" "h a2 = Seed 15 # r2" "h a3 = Seed 14 # r3" "h a4 = Seed 13 # r4"
        "h a5 = Seed 12 # r5" "h a6 = Seed 11 # r6" "h a7 = Seed 10 # r7" "h a8 = Seed 9 # r8"
  shows "round_matchups [1, 2, 3, 4, 5, 6, 7, 8]
           [(1, a1), (2, a2), (3, a3), (4, a4), (5, a5), (6, a6), (7, a7), (8, a8)] initial_locals h
         = Some [(1, 16, a1), (2, 15, a2), (3, 14, a3), (4, 13, a4),
                 (5, 12, a5), (6, 11, a6), (7, 10, a7), (8, 9, a8)]"
proof -
  from d have "distinct (rev [a1, a2, a3, a4, a5, a6, a7, a8])" by (simp only: distinct_rev)
  then have d': "distinct [a8, a7, a6, a5, a4, a3, a2, a1]" by simp
  show ?thesis using assms d' by (simp add: initial_locals_def select_opponent_def)
qed



lemma select_by_group:
  assumes cs: "\<forall>c \<in> set cs. grp c = j" and opp: "opp \<in> set cs" and key: "opp \<in> set keys"
    and only: "\<forall>k \<in> set keys. grp k = j \<longrightarrow> k = opp"
  shows "select_opponent keys l (Tuple cs)
       = l\<lparr>visited := insert opp (visited l), current_opponent := Some opp\<rparr>"
proof -
  have "find (\<lambda>c. c \<in> set keys) cs = Some opp"
  proof (cases "find (\<lambda>c. c \<in> set keys) cs")
    case None
    with opp key show ?thesis by (auto simp: find_None_iff)
  next
    case (Some c)
    then have "c \<in> set cs" and "c \<in> set keys"
      by (auto simp: find_Some_iff)
    with cs only have "c = opp" by auto
    with Some show ?thesis by simp
  qed
  then show ?thesis by (simp add: select_opponent_def)
qed

lemma plan2:
  assumes d: "distinct [a1, a2, a3, a4]"
    and h: "h a1 = Tuple [8, 9] # r1" "h a2 = Tuple [7, 10] # r2"
        "h a3 = Tuple [6, 11] # r3" "h a4 = Tuple [5, 12] # r4"
    and range: "\<forall>w \<in> set [w1, w2, w3, w4, w5, w6, w7, w8]. 1 \<le> w \<and> w \<le> 16"
    and slots: "map slot1 [w1, w2, w3, w4, w5, w6, w7, w8] = [1, 2, 3, 4, 5, 6, 7, 8]"
  shows "round_matchups [w1, w2, w3, w4, w5, w6, w7, w8]
           [(w1, a1), (w2, a2), (w3, a3), (w4, a4), (w5, a5), (w6, a6), (w7, a7), (w8, a8)] initial_locals h
         = Some [(w1, w8, a1), (w2, w7, a2), (w3, w6, a3), (w4, w5, a4)]"
proof -
  let ?keys = "[w1, w2, w3, w4, w5, w6, w7, w8]"
  from d have "distinct (rev [a1, a2, a3, a4])" by (simp only: distinct_rev)
  then have d': "distinct [a4, a3, a2, a1]" by simp
  from slots have s: "slot1 w1 = 1" "slot1 w2 = 2" "slot1 w3 = 3" "slot1 w4 = 4"
    "slot1 w5 = 5" "slot1 w6 = 6" "slot1 w7 = 7" "slot1 w8 = 8" by simp_all
  have "distinct (map slot1 ?keys)" unfolding slots by simp
  then have k: "distinct ?keys" by (simp only: distinct_map)
  then have "distinct (rev ?keys)" by (simp only: distinct_rev)
  then have k': "distinct [w8, w7, w6, w5, w4, w3, w2, w1]" by simp
  have m8: "w8 \<in> set [8, 9]" using s(8) range by (auto simp: slot1_def split: if_splits)
  have m7: "w7 \<in> set [7, 10]" using s(7) range by (auto simp: slot1_def split: if_splits)
  have m6: "w6 \<in> set [6, 11]" using s(6) range by (auto simp: slot1_def split: if_splits)
  have m5: "w5 \<in> set [5, 12]" using s(5) range by (auto simp: slot1_def split: if_splits)
  have s1: "select_opponent ?keys l (Tuple [8, 9])
       = l\<lparr>visited := insert w8 (visited l), current_opponent := Some w8\<rparr>" for l
    by (rule select_by_group [where grp = slot1 and j = 8]) (use s m8 in \<open>simp_all add: slot1_def\<close>)
  have s2: "select_opponent ?keys l (Tuple [7, 10])
       = l\<lparr>visited := insert w7 (visited l), current_opponent := Some w7\<rparr>" for l
    by (rule select_by_group [where grp = slot1 and j = 7]) (use s m7 in \<open>simp_all add: slot1_def\<close>)
  have s3: "select_opponent ?keys l (Tuple [6, 11])
       = l\<lparr>visited := insert w6 (visited l), current_opponent := Some w6\<rparr>" for l
    by (rule select_by_group [where grp = slot1 and j = 6]) (use s m6 in \<open>simp_all add: slot1_def\<close>)
  have s4: "select_opponent ?keys l (Tuple [5, 12])
       = l\<lparr>visited := insert w5 (visited l), current_opponent := Some w5\<rparr>" for l
    by (rule select_by_group [where grp = slot1 and j = 5]) (use s m5 in \<open>simp_all add: slot1_def\<close>)
  show ?thesis
    using k k' d d' h by (simp add: initial_locals_def s1 s2 s3 s4)
qed


lemma plan3:
  assumes d: "distinct [a1, a2]"
    and h: "h a1 = Tuple [4, 5, 12, 13] # r1" "h a2 = Tuple [3, 6, 11, 14] # r2"
    and range: "\<forall>w \<in> set [x1, x2, x3, x4]. 1 \<le> w \<and> w \<le> 16"
    and slots: "map slot2 [x1, x2, x3, x4] = [1, 2, 3, 4]"
  shows "round_matchups [x1, x2, x3, x4]
           [(x1, a1), (x2, a2), (x3, a3), (x4, a4)] initial_locals h
         = Some [(x1, x4, a1), (x2, x3, a2)]"
proof -
  let ?keys = "[x1, x2, x3, x4]"
  from d have d': "distinct [a2, a1]" by auto
  from slots have s: "slot2 x1 = 1" "slot2 x2 = 2" "slot2 x3 = 3" "slot2 x4 = 4" by simp_all
  have "distinct (map slot2 ?keys)" unfolding slots by simp
  then have k: "distinct ?keys" by (simp only: distinct_map)
  then have "distinct (rev ?keys)" by (simp only: distinct_rev)
  then have k': "distinct [x4, x3, x2, x1]" by simp
  have m4: "x4 \<in> set [4, 5, 12, 13]"
    using s(4) range by (auto simp: slot2_def slot1_def split: if_splits)
  have m3: "x3 \<in> set [3, 6, 11, 14]"
    using s(3) range by (auto simp: slot2_def slot1_def split: if_splits)
  have s1: "select_opponent ?keys l (Tuple [4, 5, 12, 13])
       = l\<lparr>visited := insert x4 (visited l), current_opponent := Some x4\<rparr>" for l
    by (rule select_by_group [where grp = slot2 and j = 4])
       (use s m4 in \<open>simp_all add: slot2_def slot1_def\<close>)
  have s2: "select_opponent ?keys l (Tuple [3, 6, 11, 14])
       = l\<lparr>visited := insert x3 (visited l), current_opponent := Some x3\<rparr>" for l
    by (rule select_by_group [where grp = slot2 and j = 3])
       (use s m3 in \<open>simp_all add: slot2_def slot1_def\<close>)
  show ?thesis
    using k k' d d' h by (simp add: initial_locals_def s1 s2)
qed

lemma plan4:
  assumes h: "h a1 = Tuple [2, 3, 6, 7, 10, 11, 14, 15] # r1"
    and range: "\<forall>w \<in> set [y1, y2]. 1 \<le> w \<and> w \<le> 16"
    and slots: "map slot3 [y1, y2] = [1, 2]"
  shows "round_matchups [y1, y2] [(y1, a1), (y2, a2)] initial_locals h = Some [(y1, y2, a1)]"
proof -
  let ?keys = "[y1, y2]"
  from slots have s: "slot3 y1 = 1" "slot3 y2 = 2" by simp_all
  have "distinct (map slot3 ?keys)" unfolding slots by simp
  then have k: "distinct ?keys" by (simp only: distinct_map)
  then have k': "distinct [y2, y1]" by auto
  have m2: "y2 \<in> set [2, 3, 6, 7, 10, 11, 14, 15]"
    using s(2) range by (auto simp: slot3_def slot2_def slot1_def split: if_splits)
  have s1: "select_opponent ?keys l (Tuple [2, 3, 6, 7, 10, 11, 14, 15])
       = l\<lparr>visited := insert y2 (visited l), current_opponent := Some y2\<rparr>" for l
    by (rule select_by_group [where grp = slot3 and j = 2])
       (use s m2 in \<open>simp_all add: slot3_def slot2_def slot1_def\<close>)
  show ?thesis
    using k k' h by (simp add: initial_locals_def s1)
qed

lemma stage1:
  assumes cms: "current_matchup_state b =
      [(1, a1), (2, a2), (3, a3), (4, a4), (5, a5), (6, a6), (7, a7), (8, a8)]"
    and d: "distinct [a1, a2, a3, a4, a5, a6, a7, a8]"
    and h: "map (heap b) [a1, a2, a3, a4, a5, a6, a7, a8] = SEED_PATH_LISTS"
    and tbl: "complete_table (win_probability_dictionary b)"
    and keys: "map fst (points_by_seed b) = [1..16]"
    and ws: "ws = winners (win_probability_dictionary b) (rng b) (draws b) first_round"
  shows "simulate_round_and_update_current_state b = (None, round_result b ws [a1, a2, a3, a4, a5, a6, a7, a8])"
proof -
  let ?ms = "[(1, 16, a1), (2, 15, a2), (3, 14, a3), (4, 13, a4),
              (5, 12, a5), (6, 11, a6), (7, 10, a7), (8, 9, a8)] :: (int \<times> int \<times> addr) list"
  from h have hs: "heap b a1 = Seed 16 # tl (heap b a1)" "heap b a2 = Seed 15 # tl (heap b a2)"
    "heap b a3 = Seed 14 # tl (heap b a3)" "heap b a4 = Seed 13 # tl (heap b a4)"
    "heap b a5 = Seed 12 # tl (heap b a5)" "heap b a6 = Seed 11 # tl (heap b a6)"
    "heap b a7 = Seed 10 # tl (heap b a7)" "heap b a8 = Seed 9 # tl (heap b a8)"
    by (simp_all add: SEED_PATH_LISTS_def)
  have plan: "round_matchups (map fst (current_matchup_state b)) (current_matchup_state b)
      initial_locals (heap b) = Some ?ms"
  proof -
    have "map fst [(1, a1), (2, a2), (3, a3), (4, a4), (5, a5), (6, a6), (7, a7), (8, a8)]
        = [1, 2, 3, 4, 5, 6, 7, 8 :: int]" by simp
    then show ?thesis unfolding cms by (simp only: plan1 [OF d hs])
  qed
  have "simulate_round_and_update_current_state b =
           (None, round_result b
                    (winners (win_probability_dictionary b) (rng b) (draws b) (contestants ?ms))
                    (paths ?ms))"
    by (rule simulate_round_plan [OF plan tbl keys]) simp_all
  moreover have "contestants ?ms = first_round" by (simp add: first_round_def)
  moreover have "paths ?ms = [a1, a2, a3, a4, a5, a6, a7, a8]" by simp
  ultimately show ?thesis by (simp only: ws)
qed


lemma stage2:
  assumes cms: "current_matchup_state b =
      [(w1, a1), (w2, a2), (w3, a3), (w4, a4), (w5, a5), (w6, a6), (w7, a7), (w8, a8)]"
    and d: "distinct [a1, a2, a3, a4]"
    and h: "heap b a1 = Tuple [8, 9] # r1" "heap b a2 = Tuple [7, 10] # r2"
        "heap b a3 = Tuple [6, 11] # r3" "heap b a4 = Tuple [5, 12] # r4"
    and range: "\<forall>w \<in> set [w1, w2, w3, w4, w5, w6, w7, w8]. 1 \<le> w \<and> w \<le> 16"
    and slots: "map slot1 [w1, w2, w3, w4, w5, w6, w7, w8] = [1, 2, 3, 4, 5, 6, 7, 8]"
    and tbl: "complete_table (win_probability_dictionary b)"
    and keys: "map fst (points_by_seed b) = [1..16]"
    and ws: "ws = winners (win_probability_dictionary b) (rng b) (draws b)
                    [(w1, w8), (w2, w7), (w3, w6), (w4, w5)]"
  shows "simulate_round_and_update_current_state b = (None, round_result b ws [a1, a2, a3, a4])"
proof -
  let ?ms = "[(w1, w8, a1), (w2, w7, a2), (w3, w6, a3), (w4, w5, a4)]"
  have "distinct (map slot1 [w1, w2, w3, w4, w5, w6, w7, w8])" unfolding slots by simp
  then have k: "distinct [w1, w2, w3, w4, w5, w6, w7, w8]" by (simp only: distinct_map)
  have plan: "round_matchups (map fst (current_matchup_state b)) (current_matchup_state b)
      initial_locals (heap b) = Some ?ms"
  proof -
    have "map fst [(w1, a1), (w2, a2), (w3, a3), (w4, a4), (w5, a5), (w6, a6), (w7, a7), (w8, a8)]
        = [w1, w2, w3, w4, w5, w6, w7, w8]" by simp
    then show ?thesis unfolding cms by (simp only: plan2 [OF d h range slots])
  qed
  have seeds: "\<forall>(s, opp, a) \<in> set ?ms. 1 \<le> s \<and> s \<le> 16 \<and> 1 \<le> opp \<and> opp \<le> 16 \<and> s \<noteq> opp"
    using range k by simp
  have dist: "distinct (map fst ?ms @ map (fst \<circ> snd) ?ms)"
    using k by auto
  have "simulate_round_and_update_current_state b =
           (None, round_result b
                    (winners (win_probability_dictionary b) (rng b) (draws b) (contestants ?ms))
                    (paths ?ms))"
    by (rule simulate_round_plan [OF plan tbl keys seeds dist])
  moreover have "contestants ?ms = [(w1, w8), (w2, w7), (w3, w6), (w4, w5)]" by simp
  moreover have "paths ?ms = [a1, a2, a3, a4]" by simp
  ultimately show ?thesis by (simp only: ws)
qed

lemma stage3:
  assumes cms: "current_matchup_state b = [(x1, a1), (x2, a2), (x3, a3), (x4, a4)]"
    and d: "distinct [a1, a2]"
    and h: "heap b a1 = Tuple [4, 5, 12, 13] # r1" "heap b a2 = Tuple [3, 6, 11, 14] # r2"
    and range: "\<forall>w \<in> set [x1, x2, x3, x4]. 1 \<le> w \<and> w \<le> 16"
    and slots: "map slot2 [x1, x2, x3, x4] = [1, 2, 3, 4]"
    and tbl: "complete_table (win_probability_dictionary b)"
    and keys: "map fst (points_by_seed b) = [1..16]"
    and ws: "ws = winners (win_probability_dictionary b) (rng b) (draws b) [(x1, x4), (x2, x3)]"
  shows "simulate_round_and_update_current_state b = (None, round_result b ws [a1, a2])"
proof -
  let ?ms = "[(x1, x4, a1), (x2, x3, a2)]"
  have "distinct (map slot2 [x1, x2, x3, x4])" unfolding slots by simp
  then have k: "distinct [x1, x2, x3, x4]" by (simp only: distinct_map)
  have plan: "round_matchups (map fst (current_matchup_state b)) (current_matchup_state b)
      initial_locals (heap b) = Some ?ms"
  proof -
    have "map fst [(x1, a1), (x2, a2), (x3, a3), (x4, a4)] = [x1, x2, x3, x4]" by simp
    then show ?thesis unfolding cms by (simp only: plan3 [OF d h range slots])
  qed
  have seeds: "\<forall>(s, opp, a) \<in> set ?ms. 1 \<le> s \<and> s \<le> 16 \<and> 1 \<le> opp \<and> opp \<le> 16 \<and> s \<noteq> opp"
    using range k by simp
  have dist: "distinct (map fst ?ms @ map (fst \<circ> snd) ?ms)"
    using k by auto
  have "simulate_round_and_update_current_state b =
           (None, round_result b
                    (winners (win_probability_dictionary b) (rng b) (draws b) (contestants ?ms))
                    (paths ?ms))"
    by (rule simulate_round_plan [OF plan tbl keys seeds dist])
  moreover have "contestants ?ms = [(x1, x4), (x2, x3)]" by simp
  moreover have "paths ?ms = [a1, a2]" by simp
  ultimately show ?thesis by (simp only: ws)
qed

lemma stage4:
  assumes cms: "current_matchup_state b = [(y1, a1), (y2, a2)]"
    and h: "heap b a1 = Tuple [2, 3, 6, 7, 10, 11, 14, 15] # r1"
    and range: "\<forall>w \<in> set [y1, y2]. 1 \<le> w \<and> w \<le> 16"
    and slots: "map slot3 [y1, y2] = [1, 2]"
    and tbl: "complete_table (win_probability_dictionary b)"
    and keys: "map fst (points_by_seed b) = [1..16]"
    and ws: "ws = winners (win_probability_dictionary b) (rng b) (draws b) [(y1, y2)]"
  shows "simulate_round_and_update_current_state b = (None, round_result b ws [a1])"
proof -
  let ?ms = "[(y1, y2, a1)]"
  have "distinct (map slot3 [y1, y2])" unfolding slots by simp
  then have k: "distinct [y1, y2]" by (simp only: distinct_map)
  have plan: "round_matchups (map fst (current_matchup_state b)) (current_matchup_state b)
      initial_locals (heap b) = Some ?ms"
  proof -
    have "map fst [(y1, a1), (y2, a2)] = [y1, y2]" by simp
    then show ?thesis unfolding cms by (simp only: plan4 [where h = "heap b" and ?a1.0 = a1, OF h range slots])
  qed
  have seeds: "\<forall>(s, opp, a) \<in> set ?ms. 1 \<le> s \<and> s \<le> 16 \<and> 1 \<le> opp \<and> opp \<le> 16 \<and> s \<noteq> opp"
    using range k by simp
  have dist: "distinct (map fst ?ms @ map (fst \<circ> snd) ?ms)"
    using k by auto
  have "simulate_round_and_update_current_state b =
           (None, round_result b
                    (winners (win_probability_dictionary b) (rng b) (draws b) (contestants ?ms))
                    (paths ?ms))"
    by (rule simulate_round_plan [OF plan tbl keys seeds dist])
  moreover have "contestants ?ms = [(y1, y2)]" by simp
  moreover have "paths ?ms = [a1]" by simp
  ultimately show ?thesis by (simp only: ws)
qed

section \<open>The standard bracket\<close>

lemma round_result_fields [simp]:
  "current_matchup_state (round_result b ws as) = zip ws as"
  "draws (round_result b ws as) = draws b + length as"
  "heap (round_result b ws as) = pop_paths as (heap b)"
  "points_by_seed (round_result b ws as) = award ws (points_by_seed b)"
  "win_probability_dictionary (round_result b ws as) = win_probability_dictionary b"
  "rng (round_result b ws as) = rng b"
  "top (round_result b ws as) = top b"
  "seed_path_dictionary (round_result b ws as) = seed_path_dictionary b"
  by (simp_all add: round_result_def)

lemma fresh_bracket:
  assumes "module_loaded w"
  shows "current_matchup_state (RegionBracket SEED_PATH_DICTIONARY tbl w)
           = zip [1, 2, 3, 4, 5, 6, 7, 8] (slot_paths (top w))"
    and "map (heap (RegionBracket SEED_PATH_DICTIONARY tbl w)) (slot_paths (top w))
           = SEED_PATH_LISTS"
    and "points_by_seed (RegionBracket SEED_PATH_DICTIONARY tbl w)
           = map (\<lambda>n. (int n + 1, 0)) [0..<16]"
    and "draws (RegionBracket SEED_PATH_DICTIONARY tbl w) = draws w"
    and "rng (RegionBracket SEED_PATH_DICTIONARY tbl w) = rng w"
    and "win_probability_dictionary (RegionBracket SEED_PATH_DICTIONARY tbl w) = tbl"
proof -
  from assms have t: "8 \<le> top w"
    and h: "heap w 0 = SEED_PATH_LISTS ! 0" "heap w 1 = SEED_PATH_LISTS ! 1"
      "heap w 2 = SEED_PATH_LISTS ! 2" "heap w 3 = SEED_PATH_LISTS ! 3"
      "heap w 4 = SEED_PATH_LISTS ! 4" "heap w 5 = SEED_PATH_LISTS ! 5"
      "heap w 6 = SEED_PATH_LISTS ! 6" "heap w 7 = SEED_PATH_LISTS ! 7"
    by (simp_all add: module_loaded_def SEED_PATH_LISTS_def)
  have copy: "deepcopy_items SEED_PATH_DICTIONARY [] (heap w) (top w)
      = (zip [1, 2, 3, 4, 5, 6, 7, 8] (slot_paths (top w)),
         (heap w)(top w := heap w 0, Suc (top w) := heap w 1, Suc (Suc (top w)) := heap w 2,
                  Suc (Suc (Suc (top w))) := heap w 3,
                  Suc (Suc (Suc (Suc (top w)))) := heap w 4,
                  Suc (Suc (Suc (Suc (Suc (top w))))) := heap w 5,
                  Suc (Suc (Suc (Suc (Suc (Suc (top w)))))) := heap w 6,
                  Suc (Suc (Suc (Suc (Suc (Suc (Suc (top w))))))) := heap w 7),
         top w + 8)"
    using t by (simp add: SEED_PATH_DICTIONARY_def slot_paths_def)
  show "current_matchup_state (RegionBracket SEED_PATH_DICTIONARY tbl w)
           = zip [1, 2, 3, 4, 5, 6, 7, 8] (slot_paths (top w))"
    by (simp add: RegionBracket_def copy)
  show "map (heap (RegionBracket SEED_PATH_DICTIONARY tbl w)) (slot_paths (top w))
           = SEED_PATH_LISTS"
    using h by (simp add: RegionBracket_def copy slot_paths_def SEED_PATH_LISTS_def)
  show "points_by_seed (RegionBracket SEED_PATH_DICTIONARY tbl w)
           = map (\<lambda>n. (int n + 1, 0)) [0..<16]"
    by (simp add: RegionBracket_def copy)
  show "draws (RegionBracket SEED_PATH_DICTIONARY tbl w) = draws w"
    by (simp add: RegionBracket_def copy)
  show "rng (RegionBracket SEED_PATH_DICTIONARY tbl w) = rng w"
    by (simp add: RegionBracket_def copy)
  show "win_probability_dictionary (RegionBracket SEED_PATH_DICTIONARY tbl w) = tbl"
    by (simp add: RegionBracket_def copy)
qed

lemma winners_all:
  "\<forall>m \<in> set ms. P (fst m) \<and> P (snd m) \<Longrightarrow> \<forall>w \<in> set (winners tbl g d ms). P w"
proof (induction ms arbitrary: d)
  case Nil
  then show ?case by simp
next
  case (Cons m ms)
  obtain s opp where m: "m = (s, opp)" by (cases m)
  from Cons.prems have "P s" "P opp" by (simp_all add: m)
  then have "P (winner tbl g d s opp)" by (rule winner_cases)
  moreover from Cons.prems have "\<forall>w \<in> set (winners tbl g (Suc d) ms). P w"
    by (intro Cons.IH) simp
  ultimately show ?case by (simp add: m)
qed

lemma winners_map:
  "map (f \<circ> fst) ms = js \<Longrightarrow> map (f \<circ> snd) ms = js \<Longrightarrow> map f (winners tbl g d ms) = js"
proof (induction ms arbitrary: d js)
  case Nil
  then show ?case by simp
next
  case (Cons m ms)
  obtain s opp where m: "m = (s, opp)" by (cases m)
  from Cons.prems obtain j js' where js: "js = j # js'" and "f s = j" "f opp = j"
    and a: "map (f \<circ> fst) ms = js'" and b: "map (f \<circ> snd) ms = js'"
    by (auto simp: m)
  have "f (winner tbl g d s opp) = j"
    by (rule winner_cases [where P = "\<lambda>x. f x = j"]) fact+
  with Cons.IH [OF a b, of "Suc d"] show ?case by (simp add: m js)
qed

lemma list2: "length xs = 2 \<Longrightarrow> \<exists>x1 x2. xs = [x1, x2]"
proof -
  assume "length xs = 2"
  then obtain x1 t1 where a: "xs = x1 # t1" "length t1 = 1" by (cases xs) auto
  then obtain x2 t2 where b: "t1 = x2 # t2" "length t2 = 0" by (cases t1) auto
  with a show ?thesis by auto
qed

lemma list4: "length xs = 4 \<Longrightarrow> \<exists>x1 x2 x3 x4. xs = [x1, x2, x3, x4]"
proof -
  assume "length xs = 4"
  then obtain x1 t1 where a: "xs = x1 # t1" "length t1 = 3" by (cases xs) auto
  then obtain x2 t2 where b: "t1 = x2 # t2" "length t2 = 2" by (cases t1) auto
  from list2 [OF b(2)] a b show ?thesis by auto
qed

lemma list8:
  "length xs = 8 \<Longrightarrow> \<exists>x1 x2 x3 x4 x5 x6 x7 x8. xs = [x1, x2, x3, x4, x5, x6, x7, x8]"
proof -
  assume "length xs = 8"
  then obtain x1 t1 where a: "xs = x1 # t1" "length t1 = 7" by (cases xs) auto
  then obtain x2 t2 where b: "t1 = x2 # t2" "length t2 = 6" by (cases t1) auto
  then obtain x3 t3 where c: "t2 = x3 # t3" "length t3 = 5" by (cases t2) auto
  then obtain x4 t4 where d: "t3 = x4 # t4" "length t4 = 4" by (cases t3) auto
  from list4 [OF d(2)] a b c d show ?thesis by auto
qed

lemma round1_props:
  "length (round1_winners tbl g d) = 8"
  "\<forall>w \<in> set (round1_winners tbl g d). 1 \<le> w \<and> w \<le> 16"
  "map slot1 (round1_winners tbl g d) = [1, 2, 3, 4, 5, 6, 7, 8]"
proof -
  show "length (round1_winners tbl g d) = 8" by (simp add: round1_winners_def first_round_def)
  show "\<forall>w \<in> set (round1_winners tbl g d). 1 \<le> w \<and> w \<le> 16"
    unfolding round1_winners_def by (rule winners_all) (simp add: first_round_def)
  show "map slot1 (round1_winners tbl g d) = [1, 2, 3, 4, 5, 6, 7, 8]"
    unfolding round1_winners_def
    by (rule winners_map) (simp_all add: first_round_def slot1_def)
qed

lemma round2_props:
  "length (round2_winners tbl g d) = 4"
  "\<forall>w \<in> set (round2_winners tbl g d). 1 \<le> w \<and> w \<le> 16"
  "map slot2 (round2_winners tbl g d) = [1, 2, 3, 4]"
proof -
  from list8 [OF round1_props(1)] obtain w1 w2 w3 w4 w5 w6 w7 w8 where
    r1: "round1_winners tbl g d = [w1, w2, w3, w4, w5, w6, w7, w8]" by blast
  have p: "pairing (round1_winners tbl g d) = [(w1, w8), (w2, w7), (w3, w6), (w4, w5)]"
    by (simp add: r1 pairing_def)
  from round1_props(2) [of tbl g d] have range: "\<forall>w \<in> set [w1, w2, w3, w4, w5, w6, w7, w8]. 1 \<le> w \<and> w \<le> 16"
    by (simp only: r1)
  from round1_props(3) [of tbl g d] have s: "slot1 w1 = 1" "slot1 w2 = 2" "slot1 w3 = 3" "slot1 w4 = 4"
    "slot1 w5 = 5" "slot1 w6 = 6" "slot1 w7 = 7" "slot1 w8 = 8" by (simp_all add: r1)
  show "length (round2_winners tbl g d) = 4" by (simp add: round2_winners_def p)
  show "\<forall>w \<in> set (round2_winners tbl g d). 1 \<le> w \<and> w \<le> 16"
    unfolding round2_winners_def p by (rule winners_all) (use range in simp)
  show "map slot2 (round2_winners tbl g d) = [1, 2, 3, 4]"
    unfolding round2_winners_def p by (rule winners_map) (simp_all add: slot2_def s)
qed

lemma round3_props:
  "length (round3_winners tbl g d) = 2"
  "\<forall>w \<in> set (round3_winners tbl g d). 1 \<le> w \<and> w \<le> 16"
  "map slot3 (round3_winners tbl g d) = [1, 2]"
proof -
  from list4 [OF round2_props(1)] obtain x1 x2 x3 x4 where
    r2: "round2_winners tbl g d = [x1, x2, x3, x4]" by blast
  have p: "pairing (round2_winners tbl g d) = [(x1, x4), (x2, x3)]"
    by (simp add: r2 pairing_def)
  from round2_props(2) [of tbl g d] have range: "\<forall>w \<in> set [x1, x2, x3, x4]. 1 \<le> w \<and> w \<le> 16"
    by (simp only: r2)
  from round2_props(3) [of tbl g d] have s: "slot2 x1 = 1" "slot2 x2 = 2" "slot2 x3 = 3" "slot2 x4 = 4"
    by (simp_all add: r2)
  show "length (round3_winners tbl g d) = 2" by (simp add: round3_winners_def p)
  show "\<forall>w \<in> set (round3_winners tbl g d). 1 \<le> w \<and> w \<le> 16"
    unfolding round3_winners_def p by (rule winners_all) (use range in simp)
  show "map slot3 (round3_winners tbl g d) = [1, 2]"
    unfolding round3_winners_def p by (rule winners_map) (simp_all add: slot3_def s)
qed

lemma round4_props:
  "length (round4_winners tbl g d) = 1"
  "\<forall>w \<in> set (round4_winners tbl g d). 1 \<le> w \<and> w \<le> 16"
proof -
  from list2 [OF round3_props(1)] obtain y1 y2 where
    r3: "round3_winners tbl g d = [y1, y2]" by blast
  have p: "pairing (round3_winners tbl g d) = [(y1, y2)]"
    by (simp add: r3 pairing_def)
  from round3_props(2) [of tbl g d] have range: "\<forall>w \<in> set [y1, y2]. 1 \<le> w \<and> w \<le> 16"
    by (simp only: r3)
  show "length (round4_winners tbl g d) = 1" by (simp add: round4_winners_def p)
  show "\<forall>w \<in> set (round4_winners tbl g d). 1 \<le> w \<and> w \<le> 16"
    unfolding round4_winners_def p by (rule winners_all) (use range in simp)
qed

lemma initial_points_keys: "map fst (map (\<lambda>n. (int n + 1, 0 :: int)) [0..<16]) = [1..16]"
  by code_simp

lemma distinct_slot_paths: "distinct (slot_paths t)"
  by (simp add: slot_paths_def)

lemma map_pop_paths:
  "distinct as \<Longrightarrow> set bs \<subseteq> set as \<Longrightarrow> map (pop_paths as h) bs = map tl (map h bs)"
  by (simp add: pop_paths_distinct subset_iff)

lemma run1:
  assumes loaded: "module_loaded w" and tbl: "complete_table tbl"
  shows "simulate_round_and_update_current_state (RegionBracket SEED_PATH_DICTIONARY tbl w)
       = (None, after_round1 tbl w)"
proof -
  let ?b = "RegionBracket SEED_PATH_DICTIONARY tbl w"
  note f = fresh_bracket [OF loaded, of tbl]
  have cms: "current_matchup_state ?b =
      [(1, top w), (2, Suc (top w)), (3, Suc (Suc (top w))), (4, Suc (Suc (Suc (top w)))),
       (5, Suc (Suc (Suc (Suc (top w))))), (6, Suc (Suc (Suc (Suc (Suc (top w)))))),
       (7, Suc (Suc (Suc (Suc (Suc (Suc (top w))))))),
       (8, Suc (Suc (Suc (Suc (Suc (Suc (Suc (top w))))))))]"
    by (simp add: f(1) slot_paths_def)
  have t': "complete_table (win_probability_dictionary ?b)" using tbl by (simp only: f(6))
  have k: "map fst (points_by_seed ?b) = [1..16]"
    by (simp only: f(3) initial_points_keys)
  have ws: "round1_winners tbl (rng w) (draws w)
      = winners (win_probability_dictionary ?b) (rng ?b) (draws ?b) first_round"
    by (simp only: round1_winners_def f)
  show ?thesis
    unfolding after_round1_def slot_paths_def
    by (rule stage1 [OF cms distinct_slot_paths [unfolded slot_paths_def]
          f(2) [unfolded slot_paths_def] t' k ws])
qed

lemma after_round1_fields:
  assumes loaded: "module_loaded w"
  shows "map (heap (after_round1 tbl w)) (slot_paths (top w)) = map tl SEED_PATH_LISTS"
    and "draws (after_round1 tbl w) = draws w + 8"
    and "rng (after_round1 tbl w) = rng w"
    and "win_probability_dictionary (after_round1 tbl w) = tbl"
    and "map fst (points_by_seed (after_round1 tbl w)) = [1..16]"
    and "current_matchup_state (after_round1 tbl w)
           = zip (round1_winners tbl (rng w) (draws w)) (slot_paths (top w))"
proof -
  note f = fresh_bracket [OF loaded, of tbl]
  show "map (heap (after_round1 tbl w)) (slot_paths (top w)) = map tl SEED_PATH_LISTS"
    by (simp add: after_round1_def map_pop_paths [OF distinct_slot_paths] f(2))
  show "draws (after_round1 tbl w) = draws w + 8"
    by (simp add: after_round1_def f(4)) (simp add: slot_paths_def)
  show "rng (after_round1 tbl w) = rng w" by (simp add: after_round1_def f(5))
  show "win_probability_dictionary (after_round1 tbl w) = tbl"
    by (simp add: after_round1_def f(6))
  show "map fst (points_by_seed (after_round1 tbl w)) = [1..16]"
  proof -
    have "map fst (points_by_seed (RegionBracket SEED_PATH_DICTIONARY tbl w)) = [1..16]"
      by (simp only: f(3) initial_points_keys)
    then show ?thesis
      unfolding after_round1_def round_result_fields by (rule award_keys)
  qed
  show "current_matchup_state (after_round1 tbl w)
           = zip (round1_winners tbl (rng w) (draws w)) (slot_paths (top w))"
    by (simp add: after_round1_def)
qed

lemma run2:
  assumes loaded: "module_loaded w" and tbl: "complete_table tbl"
  shows "simulate_round_and_update_current_state (after_round1 tbl w) = (None, after_round2 tbl w)"
proof -
  let ?b = "after_round1 tbl w"
  let ?g = "rng w" and ?d = "draws w"
  note f = after_round1_fields [OF loaded, of tbl]
  from list8 [OF round1_props(1)] obtain w1 w2 w3 w4 w5 w6 w7 w8 where
    r1: "round1_winners tbl ?g ?d = [w1, w2, w3, w4, w5, w6, w7, w8]" by blast
  have cms: "current_matchup_state ?b =
      [(w1, top w), (w2, Suc (top w)), (w3, Suc (Suc (top w))), (w4, Suc (Suc (Suc (top w)))),
       (w5, Suc (Suc (Suc (Suc (top w))))), (w6, Suc (Suc (Suc (Suc (Suc (top w)))))),
       (w7, Suc (Suc (Suc (Suc (Suc (Suc (top w))))))),
       (w8, Suc (Suc (Suc (Suc (Suc (Suc (Suc (top w))))))))]"
    by (simp add: f(6) r1 slot_paths_def)
  have d: "distinct [top w, Suc (top w), Suc (Suc (top w)), Suc (Suc (Suc (top w)))]" by simp
  from f(1) have h: "heap ?b (top w) = Tuple [8, 9] # tl (heap ?b (top w))"
    "heap ?b (Suc (top w)) = Tuple [7, 10] # tl (heap ?b (Suc (top w)))"
    "heap ?b (Suc (Suc (top w))) = Tuple [6, 11] # tl (heap ?b (Suc (Suc (top w))))"
    "heap ?b (Suc (Suc (Suc (top w)))) = Tuple [5, 12] # tl (heap ?b (Suc (Suc (Suc (top w)))))"
    by (simp_all add: slot_paths_def SEED_PATH_LISTS_def)
  from round1_props(2) [of tbl ?g ?d]
  have range: "\<forall>w \<in> set [w1, w2, w3, w4, w5, w6, w7, w8]. 1 \<le> w \<and> w \<le> 16"
    by (simp only: r1)
  from round1_props(3) [of tbl ?g ?d]
  have slots: "map slot1 [w1, w2, w3, w4, w5, w6, w7, w8] = [1, 2, 3, 4, 5, 6, 7, 8]"
    by (simp only: r1)
  have t': "complete_table (win_probability_dictionary ?b)" using tbl by (simp only: f(4))
  have ws: "round2_winners tbl ?g ?d
      = winners (win_probability_dictionary ?b) (rng ?b) (draws ?b)
          [(w1, w8), (w2, w7), (w3, w6), (w4, w5)]"
    by (simp add: round2_winners_def f r1 pairing_def)
  have "take 4 (slot_paths (top w))
      = [top w, Suc (top w), Suc (Suc (top w)), Suc (Suc (Suc (top w)))]"
    by (simp add: slot_paths_def)
  then show ?thesis
    unfolding after_round2_def
    by (simp only: stage2 [OF cms d h range slots t' f(5) ws])
qed


lemma distinct_take_slot_paths: "distinct (take n (slot_paths t))"
  by (rule distinct_take) (rule distinct_slot_paths)

lemma after_round2_fields:
  assumes loaded: "module_loaded w"
  shows "map (heap (after_round2 tbl w)) (take 4 (slot_paths (top w)))
           = map tl (take 4 (map tl SEED_PATH_LISTS))"
    and "draws (after_round2 tbl w) = draws w + 12"
    and "rng (after_round2 tbl w) = rng w"
    and "win_probability_dictionary (after_round2 tbl w) = tbl"
    and "map fst (points_by_seed (after_round2 tbl w)) = [1..16]"
    and "current_matchup_state (after_round2 tbl w)
           = zip (round2_winners tbl (rng w) (draws w)) (take 4 (slot_paths (top w)))"
proof -
  note f = after_round1_fields [OF loaded, of tbl]
  have "map (heap (after_round1 tbl w)) (take 4 (slot_paths (top w)))
      = take 4 (map tl SEED_PATH_LISTS)"
    by (simp only: f(1) [symmetric] take_map)
  then show "map (heap (after_round2 tbl w)) (take 4 (slot_paths (top w)))
           = map tl (take 4 (map tl SEED_PATH_LISTS))"
    by (simp add: after_round2_def map_pop_paths [OF distinct_take_slot_paths])
  show "draws (after_round2 tbl w) = draws w + 12"
    by (simp add: after_round2_def f(2)) (simp add: slot_paths_def)
  show "rng (after_round2 tbl w) = rng w" by (simp add: after_round2_def f(3))
  show "win_probability_dictionary (after_round2 tbl w) = tbl"
    by (simp add: after_round2_def f(4))
  show "map fst (points_by_seed (after_round2 tbl w)) = [1..16]"
    unfolding after_round2_def round_result_fields by (rule award_keys) (rule f(5))
  show "current_matchup_state (after_round2 tbl w)
           = zip (round2_winners tbl (rng w) (draws w)) (take 4 (slot_paths (top w)))"
    by (simp add: after_round2_def)
qed

lemma run3:
  assumes loaded: "module_loaded w" and tbl: "complete_table tbl"
  shows "simulate_round_and_update_current_state (after_round2 tbl w) = (None, after_round3 tbl w)"
proof -
  let ?b = "after_round2 tbl w"
  let ?g = "rng w" and ?d = "draws w"
  note f = after_round2_fields [OF loaded, of tbl]
  from list4 [OF round2_props(1)] obtain x1 x2 x3 x4 where
    r2: "round2_winners tbl ?g ?d = [x1, x2, x3, x4]" by blast
  have cms: "current_matchup_state ?b =
      [(x1, top w), (x2, Suc (top w)), (x3, Suc (Suc (top w))), (x4, Suc (Suc (Suc (top w))))]"
    by (simp add: f(6) r2 slot_paths_def)
  have d: "distinct [top w, Suc (top w)]" by simp
  from f(1) have h: "heap ?b (top w) = Tuple [4, 5, 12, 13] # tl (heap ?b (top w))"
    "heap ?b (Suc (top w)) = Tuple [3, 6, 11, 14] # tl (heap ?b (Suc (top w)))"
    by (simp_all add: slot_paths_def SEED_PATH_LISTS_def)
  from round2_props(2) [of tbl ?g ?d]
  have range: "\<forall>w \<in> set [x1, x2, x3, x4]. 1 \<le> w \<and> w \<le> 16"
    by (simp only: r2)
  from round2_props(3) [of tbl ?g ?d]
  have slots: "map slot2 [x1, x2, x3, x4] = [1, 2, 3, 4]"
    by (simp only: r2)
  have t': "complete_table (win_probability_dictionary ?b)" using tbl by (simp only: f(4))
  have ws: "round3_winners tbl ?g ?d
      = winners (win_probability_dictionary ?b) (rng ?b) (draws ?b) [(x1, x4), (x2, x3)]"
    by (simp add: round3_winners_def f r2 pairing_def)
  have "take 2 (slot_paths (top w)) = [top w, Suc (top w)]"
    by (simp add: slot_paths_def)
  then show ?thesis
    unfolding after_round3_def
    by (simp only: stage3 [OF cms d h range slots t' f(5) ws])
qed

lemma after_round3_fields:
  assumes loaded: "module_loaded w"
  shows "map (heap (after_round3 tbl w)) (take 2 (slot_paths (top w)))
           = map tl (take 2 (map tl (take 4 (map tl SEED_PATH_LISTS))))"
    and "draws (after_round3 tbl w) = draws w + 14"
    and "rng (after_round3 tbl w) = rng w"
    and "win_probability_dictionary (after_round3 tbl w) = tbl"
    and "map fst (points_by_seed (after_round3 tbl w)) = [1..16]"
    and "current_matchup_state (after_round3 tbl w)
           = zip (round3_winners tbl (rng w) (draws w)) (take 2 (slot_paths (top w)))"
proof -
  note f = after_round2_fields [OF loaded, of tbl]
  have "map (heap (after_round2 tbl w)) (take 2 (take 4 (slot_paths (top w))))
      = take 2 (map (heap (after_round2 tbl w)) (take 4 (slot_paths (top w))))"
    by (simp only: take_map)
  moreover have "take 2 (take 4 (slot_paths (top w))) = take 2 (slot_paths (top w))" by simp
  ultimately have "map (heap (after_round2 tbl w)) (take 2 (slot_paths (top w)))
      = take 2 (map tl (take 4 (map tl SEED_PATH_LISTS)))"
    by (simp only: f(1))
  then show "map (heap (after_round3 tbl w)) (take 2 (slot_paths (top w)))
           = map tl (take 2 (map tl (take 4 (map tl SEED_PATH_LISTS))))"
    by (simp add: after_round3_def map_pop_paths [OF distinct_take_slot_paths])
  show "draws (after_round3 tbl w) = draws w + 14"
    by (simp add: after_round3_def f(2)) (simp add: slot_paths_def)
  show "rng (after_round3 tbl w) = rng w" by (simp add: after_round3_def f(3))
  show "win_probability_dictionary (after_round3 tbl w) = tbl"
    by (simp add: after_round3_def f(4))
  show "map fst (points_by_seed (after_round3 tbl w)) = [1..16]"
    unfolding after_round3_def round_result_fields by (rule award_keys) (rule f(5))
  show "current_matchup_state (after_round3 tbl w)
           = zip (round3_winners tbl (rng w) (draws w)) (take 2 (slot_paths (top w)))"
    by (simp add: after_round3_def)
qed

lemma run4:
  assumes loaded: "module_loaded w" and tbl: "complete_table tbl"
  shows "simulate_round_and_update_current_state (after_round3 tbl w) = (None, after_round4 tbl w)"
proof -
  let ?b = "after_round3 tbl w"
  let ?g = "rng w" and ?d = "draws w"
  note f = after_round3_fields [OF loaded, of tbl]
  from list2 [OF round3_props(1)] obtain y1 y2 where
    r3: "round3_winners tbl ?g ?d = [y1, y2]" by blast
  have cms: "current_matchup_state ?b = [(y1, top w), (y2, Suc (top w))]"
    by (simp add: f(6) r3 slot_paths_def)
  from f(1) have h: "heap ?b (top w)
      = Tuple [2, 3, 6, 7, 10, 11, 14, 15] # tl (heap ?b (top w))"
    by (simp add: slot_paths_def SEED_PATH_LISTS_def)
  from round3_props(2) [of tbl ?g ?d]
  have range: "\<forall>w \<in> set [y1, y2]. 1 \<le> w \<and> w \<le> 16"
    by (simp only: r3)
  from round3_props(3) [of tbl ?g ?d]
  have slots: "map slot3 [y1, y2] = [1, 2]"
    by (simp only: r3)
  have t': "complete_table (win_probability_dictionary ?b)" using tbl by (simp only: f(4))
  have ws: "round4_winners tbl ?g ?d
      = winners (win_probability_dictionary ?b) (rng ?b) (draws ?b) [(y1, y2)]"
    by (simp add: round4_winners_def f r3 pairing_def)
  have "take 1 (slot_paths (top w)) = [top w]"
    by (simp add: slot_paths_def)
  then show ?thesis
    unfolding after_round4_def
    by (simp only: stage4 [OF cms h range slots t' f(5) ws])
qed

lemma tournament_run:
  assumes loaded: "module_loaded w" and tbl: "complete_table tbl"
  shows "simulate_rounds 1 (RegionBracket SEED_PATH_DICTIONARY tbl w) = (None, after_round1 tbl w)"
    and "simulate_rounds 2 (RegionBracket SEED_PATH_DICTIONARY tbl w) = (None, after_round2 tbl w)"
    and "simulate_rounds 3 (RegionBracket SEED_PATH_DICTIONARY tbl w) = (None, after_round3 tbl w)"
    and "simulate_region_tournament (RegionBracket SEED_PATH_DICTIONARY tbl w)
           = (None, after_round4 tbl w)"
  using run1 [OF assms] run2 [OF assms] run3 [OF assms] run4 [OF assms]
  by (simp_all add: simulate_region_tournament_def eval_nat_numeral)

section \<open>Properties of the discretizer\<close>

lemma argmin_le_refl: "argmin_le a a"
  by (cases a) (simp_all add: argmin_le_def)

lemma argmin_le_trans: "argmin_le a b \<Longrightarrow> argmin_le b c \<Longrightarrow> argmin_le a c"
  by (cases a; cases b; cases c) (simp_all add: argmin_le_def)

lemma argmin_le_total: "argmin_le a b \<or> argmin_le b a"
  by (cases a; cases b) (auto simp: argmin_le_def)

lemma argmin_le_ge: "b \<noteq> NaN \<Longrightarrow> argmin_le b a \<longleftrightarrow> float64_ge a b"
  by (simp add: argmin_le_def)

lemma argmin_le_NaN: "argmin_le b NaN \<longleftrightarrow> b = NaN"
  by (cases b) (simp_all add: argmin_le_def)

lemma first_min_snoc_keep:
  assumes "first_min pre bi" and "argmin_le (pre ! bi) x"
  shows "first_min (pre @ [x]) bi"
  using assms by (auto simp: first_min_def nth_append less_Suc_eq)

lemma first_min_snoc_new:
  assumes "first_min pre bi" and "\<not> argmin_le (pre ! bi) x"
  shows "first_min (pre @ [x]) (length pre)"
proof -
  from assms(2) have xb: "argmin_le x (pre ! bi)" using argmin_le_total by blast
  have "argmin_le x (pre ! j)" if "j < length pre" for j
    using assms(1) that xb unfolding first_min_def by (blast intro: argmin_le_trans)
  moreover have "\<not> argmin_le (pre ! j) x" if "j < length pre" for j
  proof
    assume "argmin_le (pre ! j) x"
    moreover from assms(1) that have "argmin_le (pre ! bi) (pre ! j)" by (simp add: first_min_def)
    ultimately have "argmin_le (pre ! bi) x" by (blast intro: argmin_le_trans)
    with assms(2) show False by simp
  qed
  ultimately show ?thesis
    by (auto simp: first_min_def nth_append less_Suc_eq argmin_le_refl)
qed

lemma first_min_NaN:
  assumes "first_min (pre @ [NaN]) (length pre)"
  shows "first_min (pre @ NaN # xs) (length pre)"
proof -
  have "\<not> argmin_le ((pre @ NaN # xs) ! j) ((pre @ NaN # xs) ! length pre)"
    if "j < length pre" for j
  proof -
    from assms that have "\<not> argmin_le ((pre @ [NaN]) ! j) ((pre @ [NaN]) ! length pre)"
      unfolding first_min_def by blast
    with that show ?thesis by (simp add: nth_append)
  qed
  moreover have "argmin_le ((pre @ NaN # xs) ! length pre) y" for y
    by (simp add: argmin_le_def)
  ultimately show ?thesis unfolding first_min_def by simp
qed

lemma argmin_scan_first_min:
  "first_min pre bi \<Longrightarrow> length pre = i \<Longrightarrow> pre ! bi = mp \<Longrightarrow> mp \<noteq> NaN \<Longrightarrow>
   first_min (pre @ xs) (argmin_scan xs i bi mp)"
proof (induction xs arbitrary: pre i bi mp)
  case Nil
  then show ?case by simp
next
  case (Cons x xs)
  have len: "length (pre @ [x]) = Suc i" using Cons.prems(2) by simp
  have bi: "bi < length pre" using Cons.prems(1) by (simp add: first_min_def)
  show ?case
  proof (cases "float64_ge x mp")
    case True
    then have "argmin_le (pre ! bi) x" using Cons.prems(3) by (simp add: argmin_le_def)
    with Cons.prems(1) have "first_min (pre @ [x]) bi" by (rule first_min_snoc_keep)
    moreover note len
    moreover have "(pre @ [x]) ! bi = mp" using Cons.prems(3) bi by (simp add: nth_append)
    moreover note Cons.prems(4)
    ultimately have "first_min ((pre @ [x]) @ xs) (argmin_scan xs (Suc i) bi mp)"
      by (rule Cons.IH)
    then have "first_min (pre @ x # xs) (argmin_scan xs (Suc i) bi mp)" by simp
    moreover have "argmin_scan (x # xs) i bi mp = argmin_scan xs (Suc i) bi mp"
      using True by simp
    ultimately show ?thesis by (simp only:)
  next
    case False
    then have "\<not> argmin_le (pre ! bi) x"
      using Cons.prems(3) Cons.prems(4) by (simp add: argmin_le_def)
    with Cons.prems(1) have new: "first_min (pre @ [x]) (length pre)" by (rule first_min_snoc_new)
    show ?thesis
    proof (cases "x = NaN")
      case True
      from new have "first_min (pre @ NaN # xs) (length pre)"
        unfolding True by (rule first_min_NaN)
      moreover have "argmin_scan (x # xs) i bi mp = i" using True False by simp
      ultimately show ?thesis using True Cons.prems(2) by (simp only:)
    next
      case n: False
      from new have "first_min (pre @ [x]) i" using Cons.prems(2) by (simp only:)
      moreover note len
      moreover have "(pre @ [x]) ! i = x" using Cons.prems(2) by (simp add: nth_append)
      moreover note n
      ultimately have "first_min ((pre @ [x]) @ xs) (argmin_scan xs (Suc i) i x)"
        by (rule Cons.IH)
      then have "first_min (pre @ x # xs) (argmin_scan xs (Suc i) i x)" by simp
      moreover have "argmin_scan (x # xs) i bi mp = argmin_scan xs (Suc i) i x"
        using False n by simp
      ultimately show ?thesis by (simp only:)
    qed
  qed
qed

lemma np_argmin_first_min:
  "ys \<noteq> [] \<Longrightarrow> \<exists>r. np_argmin ys = Inr r \<and> first_min ys r"
proof (cases ys)
  case Nil
  assume "ys \<noteq> []" with Nil show ?thesis by simp
next
  case (Cons x xs)
  have one: "first_min [x] 0" by (simp add: first_min_def argmin_le_refl)
  show ?thesis
  proof (cases "x = NaN")
    case True
    have "first_min ([] @ NaN # xs) (length ([] :: float64 list))"
      by (rule first_min_NaN) (simp add: first_min_def argmin_le_refl)
    with True Cons show ?thesis by simp
  next
    case False
    from argmin_scan_first_min [OF one, of 1 x xs] False Cons show ?thesis by simp
  qed
qed





text \<open>The definitions that evaluate the discretizer on given numbers.\<close>

lemmas float64_eval = computed_distance_def float64_of_int_def float64_round_def
      float64_ulp_exponent_def round_half_even_def Let_def
      clip_continuous_inputs_to_discrete_search_space_def SINGLE_REGION_SEARCH_SPACE_def
      np_delete_def

lemma clip_example:
  "clip_continuous_inputs_to_discrete_search_space
     [float64_round (164 / 10), float64_round (11 / 10), float64_round (12 / 10)] None False
   = Inr [16, 1, 2]"
  by (simp add: float64_eval)

lemma clip_far:
  "clip_continuous_inputs_to_discrete_search_space [Finite (2 ^ 60)] None False = Inr [1]"
  by (simp add: float64_eval)

lemma np_delete_distinct:
  assumes "distinct arr" and "idx < length arr"
  shows "np_delete arr idx = remaining arr [arr ! idx]"
proof -
  have split: "arr = take idx arr @ arr ! idx # drop (Suc idx) arr"
    using assms(2) by (rule id_take_nth_drop)
  have d: "distinct (take idx arr @ arr ! idx # drop (Suc idx) arr)"
    using assms(1) split by simp
  have a: "filter (\<lambda>c. c \<noteq> arr ! idx) (take idx arr) = take idx arr"
    using d by (intro filter_True) auto
  have b: "filter (\<lambda>c. c \<noteq> arr ! idx) (drop (Suc idx) arr) = drop (Suc idx) arr"
    using d by (intro filter_True) auto
  have "remaining arr [arr ! idx]
      = filter (\<lambda>c. c \<noteq> arr ! idx) (take idx arr @ arr ! idx # drop (Suc idx) arr)"
    unfolding remaining_def using split by simp
  also have "\<dots> = take idx arr @ drop (Suc idx) arr"
    using a b by simp
  finally show ?thesis by (simp add: np_delete_def)
qed

lemma remaining_Nil: "remaining cs [] = cs"
  by (simp add: remaining_def)

lemma remaining_Cons: "remaining cs (y # ys) = remaining (remaining cs [y]) ys"
  by (induction cs) (auto simp: remaining_def)

lemma first_min_nearest:
  "first_min (map (computed_distance v) arr) r \<Longrightarrow> nearest_first arr v (arr ! r)"
  unfolding first_min_def nearest_first_def by (intro exI [of _ r]) auto

lemma clip_loop_no_replace:
  "distinct arr \<Longrightarrow> length vs \<le> length arr \<Longrightarrow>
   \<exists>ys. clip_loop vs False arr out = Inr (out @ ys) \<and> length ys = length vs
      \<and> distinct ys \<and> set ys \<subseteq> set arr
      \<and> (\<forall>i < length vs. nearest_first (remaining arr (take i ys)) (vs ! i) (ys ! i))"
proof (induction vs arbitrary: arr out)
  case Nil
  then show ?case by simp
next
  case (Cons v vs)
  from Cons.prems have ne: "map (computed_distance v) arr \<noteq> []" by auto
  from np_argmin_first_min [OF ne] obtain r where
    r: "np_argmin (map (computed_distance v) arr) = Inr r"
    and fm: "first_min (map (computed_distance v) arr) r" by blast
  from fm have rlt: "r < length arr" by (simp add: first_min_def)
  let ?arr' = "np_delete arr r"
  have del: "?arr' = remaining arr [arr ! r]"
    using Cons.prems(1) rlt by (rule np_delete_distinct)
  have d': "distinct ?arr'" using Cons.prems(1) by (simp add: del remaining_def)
  have l': "length vs \<le> length ?arr'"
    using Cons.prems(2) rlt by (simp add: np_delete_def)
  from Cons.IH [OF d' l', of "out @ [arr ! r]"] obtain ys where
    run: "clip_loop vs False ?arr' (out @ [arr ! r]) = Inr ((out @ [arr ! r]) @ ys)"
    and len: "length ys = length vs" and dist: "distinct ys"
    and sub: "set ys \<subseteq> set ?arr'"
    and near: "\<forall>i < length vs. nearest_first (remaining ?arr' (take i ys)) (vs ! i) (ys ! i)"
    by blast
  have set': "set ?arr' = set arr - {arr ! r}" by (auto simp: del remaining_def)
  have "clip_loop (v # vs) False arr out = Inr (out @ arr ! r # ys)"
    using r run by simp
  moreover have "length (arr ! r # ys) = length (v # vs)" using len by simp
  moreover have "distinct (arr ! r # ys)" using dist sub set' by auto
  moreover have "set (arr ! r # ys) \<subseteq> set arr" using sub set' rlt by auto
  moreover have "\<forall>i < length (v # vs).
      nearest_first (remaining arr (take i (arr ! r # ys))) ((v # vs) ! i) ((arr ! r # ys) ! i)"
  proof (intro allI impI)
    fix i assume "i < length (v # vs)"
    show "nearest_first (remaining arr (take i (arr ! r # ys))) ((v # vs) ! i) ((arr ! r # ys) ! i)"
    proof (cases i)
      case 0
      then show ?thesis using first_min_nearest [OF fm] by (simp add: remaining_Nil)
    next
      case (Suc j)
      with \<open>i < length (v # vs)\<close> have "j < length vs" by simp
      with near have "nearest_first (remaining ?arr' (take j ys)) (vs ! j) (ys ! j)" by blast
      then show ?thesis
        using Suc remaining_Cons [of arr "arr ! r" "take j ys"] by (simp add: del)
    qed
  qed
  ultimately show ?case by blast
qed

lemma clip_loop_exhausted:
  "length arr < length vs \<Longrightarrow> clip_loop vs False arr out = Inl ValueError_argmin_empty"
proof (induction vs arbitrary: arr out)
  case Nil
  then show ?case by simp
next
  case (Cons v vs)
  show ?case
  proof (cases arr)
    case Nil
    then show ?thesis by simp
  next
    case (Cons c cs)
    then have ne: "map (computed_distance v) arr \<noteq> []" by simp
    from np_argmin_first_min [OF ne] obtain r where
      r: "np_argmin (map (computed_distance v) arr) = Inr r"
      and fm: "first_min (map (computed_distance v) arr) r" by blast
    from fm have rlt: "r < length arr" by (simp add: first_min_def)
    have "length (np_delete arr r) < length vs"
      using Cons.prems rlt by (simp add: np_delete_def)
    from Cons.IH [OF this] r show ?thesis by simp
  qed
qed

lemma clip_loop_succeeds:
  "length vs \<le> length arr \<Longrightarrow>
   \<exists>ys. clip_loop vs False arr out = Inr (out @ ys) \<and> length ys = length vs"
proof (induction vs arbitrary: arr out)
  case Nil
  then show ?case by simp
next
  case (Cons v vs)
  from Cons.prems have ne: "map (computed_distance v) arr \<noteq> []" by auto
  from np_argmin_first_min [OF ne] obtain r where
    r: "np_argmin (map (computed_distance v) arr) = Inr r"
    and fm: "first_min (map (computed_distance v) arr) r" by blast
  from fm have rlt: "r < length arr" by (simp add: first_min_def)
  have "length vs \<le> length (np_delete arr r)"
    using Cons.prems rlt by (simp add: np_delete_def)
  from Cons.IH [OF this, of "out @ [arr ! r]"] obtain ys where
    "clip_loop vs False (np_delete arr r) (out @ [arr ! r]) = Inr ((out @ [arr ! r]) @ ys)"
    and "length ys = length vs" by blast
  then have "clip_loop (v # vs) False arr out = Inr (out @ arr ! r # ys)
      \<and> length (arr ! r # ys) = length (v # vs)"
    using r by simp
  then show ?case by blast
qed

text \<open>
  C4, as amended. With \<^verbatim>\<open>replace=False\<close>, a candidate space without duplicates (the one
  given, or the default \<open>1..16\<close>) and at most as many inputs as candidates, the discretizer
  returns a list \<open>ys\<close> as long as the input; \<open>ys ! i\<close> is, among the candidates not
  selected for the inputs before \<open>i\<close>, one whose distance from input \<open>i\<close> as computed in
  binary64 is minimal in the order of \<^verbatim>\<open>np.argmin\<close>, the earliest such in the order of the
  working copy; and no value occurs twice in \<open>ys\<close>.
\<close>

theorem discretizer_nearest_remaining:
  assumes "cs = (case space of None \<Rightarrow> SINGLE_REGION_SEARCH_SPACE | Some s \<Rightarrow> s)"
    and "distinct cs" and "length xs \<le> length cs"
  shows "\<exists>ys. clip_continuous_inputs_to_discrete_search_space xs space False = Inr ys
      \<and> length ys = length xs \<and> distinct ys
      \<and> (\<forall>i < length xs. nearest_first (remaining cs (take i ys)) (xs ! i) (ys ! i))"
proof -
  from clip_loop_no_replace [OF assms(2) assms(3), of "[]"] obtain ys where
    "clip_loop xs False cs [] = Inr ([] @ ys)" and "length ys = length xs" and "distinct ys"
    and "\<forall>i < length xs. nearest_first (remaining cs (take i ys)) (xs ! i) (ys ! i)"
    by blast
  then show ?thesis
    unfolding clip_continuous_inputs_to_discrete_search_space_def assms(1) [symmetric]
    by auto
qed

theorem discretizer_nearest_remaining_witness:
  "distinct SINGLE_REGION_SEARCH_SPACE
   \<and> length [float64_round (164 / 10), float64_round (11 / 10), float64_round (12 / 10)]
       \<le> length SINGLE_REGION_SEARCH_SPACE
   \<and> clip_continuous_inputs_to_discrete_search_space
         [float64_round (164 / 10), float64_round (11 / 10), float64_round (12 / 10)] None False
       = Inr [16, 1, 2]
   \<and> distinct [16, 1, 2 :: int]
   \<and> nearest_first (remaining SINGLE_REGION_SEARCH_SPACE []) (float64_round (164 / 10)) 16
   \<and> nearest_first (remaining SINGLE_REGION_SEARCH_SPACE [16]) (float64_round (11 / 10)) 1
   \<and> nearest_first (remaining SINGLE_REGION_SEARCH_SPACE [16, 1]) (float64_round (12 / 10)) 2"
proof -
  let ?xs = "[float64_round (164 / 10), float64_round (11 / 10), float64_round (12 / 10)]"
  have d: "distinct SINGLE_REGION_SEARCH_SPACE"
    by (simp add: SINGLE_REGION_SEARCH_SPACE_def)
  have l: "length ?xs \<le> length SINGLE_REGION_SEARCH_SPACE"
    by (simp add: SINGLE_REGION_SEARCH_SPACE_def)
  from discretizer_nearest_remaining [of SINGLE_REGION_SEARCH_SPACE None, OF _ d l]
  obtain ys where
    run: "clip_continuous_inputs_to_discrete_search_space ?xs None False = Inr ys"
    and dist: "distinct ys"
    and near: "\<forall>i < length ?xs.
      nearest_first (remaining SINGLE_REGION_SEARCH_SPACE (take i ys)) (?xs ! i) (ys ! i)"
    by auto
  from run clip_example have ys: "ys = [16, 1, 2]" by simp
  have "nearest_first (remaining SINGLE_REGION_SEARCH_SPACE []) (float64_round (164 / 10)) 16"
    using near [rule_format, of 0] by (simp add: ys)
  moreover have
    "nearest_first (remaining SINGLE_REGION_SEARCH_SPACE [16]) (float64_round (11 / 10)) 1"
    using near [rule_format, of 1] by (simp add: ys)
  moreover have
    "nearest_first (remaining SINGLE_REGION_SEARCH_SPACE [16, 1]) (float64_round (12 / 10)) 2"
    using near [rule_format, of 2] by (simp add: ys)
  ultimately show ?thesis using d l dist run by (simp add: ys)
qed

text \<open>
  C4 as stated, with the exact distance, fails where rounding makes the computed
  distances equal: for the input \<open>2 ^ 60\<close> every difference \<open>c - 2 ^ 60\<close> with \<open>c\<close> in
  \<open>1..16\<close> rounds to \<open>- 2 ^ 60\<close>, and the discretizer returns the first candidate \<open>1\<close>,
  while \<open>16\<close> is nearer.
\<close>

theorem discretizer_nearest_remaining_counterexample:
  "clip_continuous_inputs_to_discrete_search_space [Finite (2 ^ 60)] None False = Inr [1]
   \<and> \<not> nearest_in_reals (remaining SINGLE_REGION_SEARCH_SPACE []) (2 ^ 60) 1
   \<and> \<bar>real_of_int 16 - 2 ^ 60\<bar> < \<bar>real_of_int 1 - 2 ^ 60\<bar>"
proof -
  have "\<not> nearest_in_reals (remaining SINGLE_REGION_SEARCH_SPACE []) (2 ^ 60) 1"
  proof
    assume "nearest_in_reals (remaining SINGLE_REGION_SEARCH_SPACE []) (2 ^ 60) 1"
    then have "\<forall>j < length SINGLE_REGION_SEARCH_SPACE.
        \<bar>real_of_int 1 - 2 ^ 60\<bar> \<le> \<bar>real_of_int (SINGLE_REGION_SEARCH_SPACE ! j) - 2 ^ 60\<bar>"
      unfolding nearest_in_reals_def remaining_Nil by blast
    moreover have "15 < length SINGLE_REGION_SEARCH_SPACE"
      by (simp add: SINGLE_REGION_SEARCH_SPACE_def)
    ultimately have
      "\<bar>real_of_int 1 - 2 ^ 60\<bar> \<le> \<bar>real_of_int (SINGLE_REGION_SEARCH_SPACE ! 15) - 2 ^ 60\<bar>"
      by blast
    then show False by (simp add: SINGLE_REGION_SEARCH_SPACE_def)
  qed
  with clip_far show ?thesis by simp
qed

text \<open>
  C5. With \<^verbatim>\<open>replace=False\<close> and more inputs than candidates, the call raises: the first
  \<open>length cs\<close> inputs each take one candidate out of the working copy, and the next input
  meets the empty working copy, on which \<^verbatim>\<open>np.argmin\<close> raises its \<^verbatim>\<open>ValueError\<close> (the
  exhausted search space of the specification). No list is returned, so no candidate is
  used a second time.
\<close>

theorem discretizer_exhausted:
  assumes "cs = (case space of None \<Rightarrow> SINGLE_REGION_SEARCH_SPACE | Some s \<Rightarrow> s)"
    and "length cs < length xs"
  shows "clip_continuous_inputs_to_discrete_search_space xs space False
           = Inl ValueError_argmin_empty
       \<and> (\<exists>ys. clip_continuous_inputs_to_discrete_search_space (take (length cs) xs) space False
                  = Inr ys \<and> length ys = length cs)"
proof -
  have "clip_loop xs False cs [] = Inl ValueError_argmin_empty"
    using assms(2) by (rule clip_loop_exhausted)
  moreover have "length (take (length cs) xs) \<le> length cs" by simp
  from clip_loop_succeeds [OF this, of "[]"] assms(2)
  have "\<exists>ys. clip_loop (take (length cs) xs) False cs [] = Inr ys \<and> length ys = length cs"
    by auto
  ultimately show ?thesis
    unfolding clip_continuous_inputs_to_discrete_search_space_def assms(1) [symmetric]
    by simp
qed

theorem discretizer_exhausted_witness:
  "length SINGLE_REGION_SEARCH_SPACE < length (replicate 17 (Finite 1))
   \<and> clip_continuous_inputs_to_discrete_search_space (replicate 17 (Finite 1)) None False
       = Inl ValueError_argmin_empty"
  using discretizer_exhausted [of SINGLE_REGION_SEARCH_SPACE None "replicate 17 (Finite 1)"]
  by (simp add: SINGLE_REGION_SEARCH_SPACE_def)

section \<open>One resolved matchup\<close>


lemma extract_win_probability:
  "extract_win_probability_by_seed tbl a b = Inr p \<Longrightarrow> win_probability tbl a b = p"
  by (simp add: win_probability_def)

lemma round_body_matchup:
  assumes run: "round_body seed a l b = (Inr l', b')" and nv: "seed \<notin> visited l"
  shows "\<exists>d rest opp pts.
      heap b a = d # rest
    \<and> current_opponent l' = Some opp
    \<and> map_of (points_by_seed b)
          (winner (win_probability_dictionary b) (rng b) (draws b) seed opp) = Some pts
    \<and> updated_matchup_state l'
        = AList.update (winner (win_probability_dictionary b) (rng b) (draws b) seed opp) a
            (updated_matchup_state l)
    \<and> b' = b\<lparr>heap := (heap b)(a := rest), draws := Suc (draws b),
        points_by_seed :=
          AList.update (winner (win_probability_dictionary b) (rng b) (draws b) seed opp)
            (pts + winner (win_probability_dictionary b) (rng b) (draws b) seed opp)
            (points_by_seed b)\<rparr>"
proof -
  from round_body_resolved [OF run nv] obtain d rest opp p pts W where
    h: "heap b a = d # rest"
    and opp: "current_opponent (select_opponent (map fst (current_matchup_state b)) l d) = Some opp"
    and p: "extract_win_probability_by_seed (win_probability_dictionary b) seed opp = Inr p"
    and W: "W = (if rng b (draws b) < p then seed else opp)"
    and pts: "map_of (points_by_seed b) W = Some pts"
    and l': "l' = (select_opponent (map fst (current_matchup_state b)) l d)
             \<lparr>updated_matchup_state := AList.update W a (updated_matchup_state l)\<rparr>"
    and b': "b' = b\<lparr>heap := (heap b)(a := rest), draws := Suc (draws b),
        points_by_seed := AList.update W (pts + W) (points_by_seed b)\<rparr>"
    by blast
  have Ww: "W = winner (win_probability_dictionary b) (rng b) (draws b) seed opp"
    by (simp add: W winner_def extract_win_probability [OF p])
  from h opp pts l' b' show ?thesis by (auto simp: Ww)
qed


lemma complete_upset: "complete_table upset_table"
  by code_simp

lemma complete_chalk: "complete_table chalk_table"
  by code_simp

lemma loaded_module_world: "module_loaded (module_world g)"
  by (simp add: module_loaded_def module_world_def SEED_PATH_LISTS_def)

text \<open>
  C7. When an iteration of the round resolves a matchup, the points of the winner grow by
  the winner's own seed number; the points of every other seed are what they were, and
  no entry is added to or removed from \<^verbatim>\<open>points_by_seed\<close>.
\<close>

theorem matchup_scores_winner:
  assumes "round_body seed a l b = (Inr l', b')" and "seed \<notin> visited l"
  shows "\<exists>opp pts. current_opponent l' = Some opp
     \<and> map_of (points_by_seed b)
          (winner (win_probability_dictionary b) (rng b) (draws b) seed opp) = Some pts
     \<and> map_of (points_by_seed b')
          (winner (win_probability_dictionary b) (rng b) (draws b) seed opp)
        = Some (pts + winner (win_probability_dictionary b) (rng b) (draws b) seed opp)
     \<and> (\<forall>k. k \<noteq> winner (win_probability_dictionary b) (rng b) (draws b) seed opp
           \<longrightarrow> map_of (points_by_seed b') k = map_of (points_by_seed b) k)
     \<and> map fst (points_by_seed b') = map fst (points_by_seed b)"
proof -
  from round_body_matchup [OF assms] obtain d rest opp pts where
    opp: "current_opponent l' = Some opp"
    and pts: "map_of (points_by_seed b)
          (winner (win_probability_dictionary b) (rng b) (draws b) seed opp) = Some pts"
    and b': "b' = b\<lparr>heap := (heap b)(a := rest), draws := Suc (draws b),
        points_by_seed :=
          AList.update (winner (win_probability_dictionary b) (rng b) (draws b) seed opp)
            (pts + winner (win_probability_dictionary b) (rng b) (draws b) seed opp)
            (points_by_seed b)\<rparr>"
    by blast
  show ?thesis
    using opp pts update_present_keys [OF pts]
    by (simp add: b' AList.update_conv')
qed


theorem matchup_scores_winner_witness:
  "round_body 5 12 initial_locals
      (RegionBracket SEED_PATH_DICTIONARY [(12, [(5, 1)])] (module_world (\<lambda>n. 1 / 2)))
    = (Inr \<lparr>updated_matchup_state = [(12, 12)], visited = {}, current_opponent = Some 12\<rparr>,
       snd (round_body 5 12 initial_locals
         (RegionBracket SEED_PATH_DICTIONARY [(12, [(5, 1)])] (module_world (\<lambda>n. 1 / 2)))))
   \<and> 5 \<notin> visited initial_locals
   \<and> map_of (points_by_seed (snd (round_body 5 12 initial_locals
         (RegionBracket SEED_PATH_DICTIONARY [(12, [(5, 1)])] (module_world (\<lambda>n. 1 / 2))))))
         12 = Some 12
   \<and> map_of (points_by_seed (snd (round_body 5 12 initial_locals
         (RegionBracket SEED_PATH_DICTIONARY [(12, [(5, 1)])] (module_world (\<lambda>n. 1 / 2))))))
         5 = Some 0"
proof -
  let ?B = "RegionBracket SEED_PATH_DICTIONARY [(12, [(5, 1)])] (module_world (\<lambda>n. 1 / 2))"
  let ?L = "\<lparr>updated_matchup_state = [(12, 12)], visited = {}, current_opponent = Some (12 :: int)\<rparr>"
  have "fst (round_body 5 12 initial_locals ?B) = Inr ?L" by code_simp
  then have run: "round_body 5 12 initial_locals ?B
      = (Inr ?L, snd (round_body 5 12 initial_locals ?B))"
    by (simp add: prod_eq_iff)
  have nv: "5 \<notin> visited initial_locals" by (simp add: initial_locals_def)
  have w: "winner (win_probability_dictionary ?B) (rng ?B) (draws ?B) 5 12 = 12" by code_simp
  have p12: "map_of (points_by_seed ?B) 12 = Some 0"
    and p5: "map_of (points_by_seed ?B) 5 = Some 0" by code_simp+
  from matchup_scores_winner [OF run nv] obtain opp pts where
    "current_opponent ?L = Some opp"
    and "map_of (points_by_seed ?B)
          (winner (win_probability_dictionary ?B) (rng ?B) (draws ?B) 5 opp) = Some pts"
    and "map_of (points_by_seed (snd (round_body 5 12 initial_locals ?B)))
          (winner (win_probability_dictionary ?B) (rng ?B) (draws ?B) 5 opp)
        = Some (pts + winner (win_probability_dictionary ?B) (rng ?B) (draws ?B) 5 opp)"
    and "\<forall>k. k \<noteq> winner (win_probability_dictionary ?B) (rng ?B) (draws ?B) 5 opp
           \<longrightarrow> map_of (points_by_seed (snd (round_body 5 12 initial_locals ?B))) k
               = map_of (points_by_seed ?B) k"
    by blast
  then have "map_of (points_by_seed (snd (round_body 5 12 initial_locals ?B))) 12 = Some 12"
    and "map_of (points_by_seed (snd (round_body 5 12 initial_locals ?B))) 5 = Some 0"
    using w p12 p5 by auto
  with run nv show ?thesis by blast
qed

section \<open>The whole tournament\<close>


lemma after_round4_fields:
  assumes loaded: "module_loaded w"
  shows "draws (after_round4 tbl w) = draws w + 15"
    and "current_matchup_state (after_round4 tbl w)
           = zip (round4_winners tbl (rng w) (draws w)) (take 1 (slot_paths (top w)))"
    and "map fst (points_by_seed (after_round4 tbl w)) = [1..16]"
proof -
  note f = after_round3_fields [OF loaded, of tbl]
  show "draws (after_round4 tbl w) = draws w + 15"
    by (simp add: after_round4_def f(2)) (simp add: slot_paths_def)
  show "current_matchup_state (after_round4 tbl w)
           = zip (round4_winners tbl (rng w) (draws w)) (take 1 (slot_paths (top w)))"
    by (simp add: after_round4_def)
  show "map fst (points_by_seed (after_round4 tbl w)) = [1..16]"
    unfolding after_round4_def round_result_fields by (rule award_keys) (rule f(5))
qed

text \<open>
  A round that returns has resolved the matchups that \<open>round_matchups\<close> lists, and has
  taken one sample for each.
\<close>

lemma round_loop_plays:
  assumes "round_loop items l b = (Inr l', b')"
  shows "\<exists>ms. round_matchups (map fst (current_matchup_state b)) items l (heap b) = Some ms
            \<and> draws b' = draws b + length ms"
  using assms
proof (induction items arbitrary: l b)
  case Nil
  then show ?case by simp
next
  case (Cons item items)
  obtain seed a where item: "item = (seed, a)" by (cases item)
  let ?keys = "map fst (current_matchup_state b)"
  show ?case
  proof (cases "seed \<in> visited l")
    case True
    with Cons.prems have "round_loop items l b = (Inr l', b')"
      by (simp add: item round_body_skip)
    from Cons.IH [OF this] True show ?thesis by (simp add: item)
  next
    case False
    obtain r b1 where body: "round_body seed a l b = (r, b1)" by (cases "round_body seed a l b")
    with Cons.prems obtain l1 where r: "r = Inr l1" and loop: "round_loop items l1 b1 = (Inr l', b')"
      by (cases r) (simp_all add: item)
    from round_body_resolved [OF body [unfolded r] False] obtain d rest opp p pts W where
      h: "heap b a = d # rest"
      and opp: "current_opponent (select_opponent ?keys l d) = Some opp"
      and l1: "l1 = (select_opponent ?keys l d)
             \<lparr>updated_matchup_state := AList.update W a (updated_matchup_state l)\<rparr>"
      and b1: "b1 = b\<lparr>heap := (heap b)(a := rest), draws := Suc (draws b),
        points_by_seed := AList.update W (pts + W) (points_by_seed b)\<rparr>"
      by blast
    from Cons.IH [OF loop] obtain ms' where
      ms': "round_matchups (map fst (current_matchup_state b1)) items l1 (heap b1) = Some ms'"
      and d': "draws b' = draws b1 + length ms'" by blast
    have "round_matchups ?keys items l1 ((heap b)(a := rest))
        = round_matchups ?keys items (select_opponent ?keys l d) ((heap b)(a := rest))"
      by (rule round_matchups_cong) (simp_all add: l1)
    with ms' have "round_matchups ?keys items (select_opponent ?keys l d) ((heap b)(a := rest)) = Some ms'"
      by (simp add: b1)
    with False h opp have "round_matchups ?keys (item # items) l (heap b) = Some ((seed, opp, a) # ms')"
      by (simp add: item)
    moreover have "draws b' = draws b + length ((seed, opp, a) # ms')"
      using d' by (simp add: b1)
    ultimately show ?thesis by blast
  qed
qed

lemma simulate_round_plays:
  assumes "simulate_round_and_update_current_state b = (None, b')"
  shows "\<exists>ms. round_matchups (map fst (current_matchup_state b)) (current_matchup_state b)
                 initial_locals (heap b) = Some ms
            \<and> draws b' = draws b + length ms"
proof -
  obtain r b1 where loop: "round_loop (current_matchup_state b) initial_locals b = (r, b1)"
    by (cases "round_loop (current_matchup_state b) initial_locals b")
  with assms obtain l1 where r: "r = Inr l1" and b': "b' = b1\<lparr>current_matchup_state := updated_matchup_state l1\<rparr>"
    by (cases r) (auto simp: simulate_round_and_update_current_state_def)
  from round_loop_plays [OF loop [unfolded r]] b' show ?thesis by simp
qed


lemma simulate_round_count:
  assumes "simulate_round_and_update_current_state b = (None, b')" and "draws b' = draws b + n"
  shows "map_option length (matchups_of b) = Some n"
  using simulate_round_plays [OF assms(1)] assms(2) by (auto simp: matchups_of_def)

text \<open>
  C6. For a complete table and any samples, the tournament of a fresh instance on
  \<^verbatim>\<open>SEED_PATH_DICTIONARY\<close> returns normally; its four rounds resolve 8, 4, 2 and 1
  matchups, each matchup taking one sample of the generator and giving one winner, so
  that the tournament takes 15 samples.
\<close>

theorem fifteen_matchups:
  assumes "module_loaded w" and "complete_table tbl"
  shows "simulate_rounds 1 (RegionBracket SEED_PATH_DICTIONARY tbl w) = (None, after_round1 tbl w)
       \<and> simulate_rounds 2 (RegionBracket SEED_PATH_DICTIONARY tbl w) = (None, after_round2 tbl w)
       \<and> simulate_rounds 3 (RegionBracket SEED_PATH_DICTIONARY tbl w) = (None, after_round3 tbl w)
       \<and> simulate_region_tournament (RegionBracket SEED_PATH_DICTIONARY tbl w)
           = (None, after_round4 tbl w)
       \<and> map_option length (matchups_of (RegionBracket SEED_PATH_DICTIONARY tbl w)) = Some 8
       \<and> map_option length (matchups_of (after_round1 tbl w)) = Some 4
       \<and> map_option length (matchups_of (after_round2 tbl w)) = Some 2
       \<and> map_option length (matchups_of (after_round3 tbl w)) = Some 1
       \<and> length (round1_winners tbl (rng w) (draws w)) = 8
       \<and> length (round2_winners tbl (rng w) (draws w)) = 4
       \<and> length (round3_winners tbl (rng w) (draws w)) = 2
       \<and> length (round4_winners tbl (rng w) (draws w)) = 1
       \<and> draws (RegionBracket SEED_PATH_DICTIONARY tbl w) = draws w
       \<and> draws (after_round1 tbl w) = draws w + 8
       \<and> draws (after_round2 tbl w) = draws w + 8 + 4
       \<and> draws (after_round3 tbl w) = draws w + 8 + 4 + 2
       \<and> draws (after_round4 tbl w) = draws w + 8 + 4 + 2 + 1"
proof -
  note d0 = fresh_bracket(4) [OF assms(1), of tbl]
    and d1 = after_round1_fields(2) [OF assms(1), of tbl]
    and d2 = after_round2_fields(2) [OF assms(1), of tbl]
    and d3 = after_round3_fields(2) [OF assms(1), of tbl]
    and d4 = after_round4_fields(1) [OF assms(1), of tbl]
  have m1: "map_option length (matchups_of (RegionBracket SEED_PATH_DICTIONARY tbl w)) = Some 8"
    by (rule simulate_round_count [OF run1 [OF assms]]) (simp add: d0 d1)
  have m2: "map_option length (matchups_of (after_round1 tbl w)) = Some 4"
    by (rule simulate_round_count [OF run2 [OF assms]]) (simp add: d1 d2)
  have m3: "map_option length (matchups_of (after_round2 tbl w)) = Some 2"
    by (rule simulate_round_count [OF run3 [OF assms]]) (simp add: d2 d3)
  have m4: "map_option length (matchups_of (after_round3 tbl w)) = Some 1"
    by (rule simulate_round_count [OF run4 [OF assms]]) (simp add: d3 d4)
  show ?thesis
    using tournament_run [OF assms] d0 d1 d2 d3 d4 m1 m2 m3 m4
      round1_props(1) [of tbl "rng w" "draws w"] round2_props(1) [of tbl "rng w" "draws w"]
      round3_props(1) [of tbl "rng w" "draws w"] round4_props(1) [of tbl "rng w" "draws w"]
    by simp
qed

theorem fifteen_matchups_witness:
  "module_loaded (module_world (\<lambda>n. 1 / 2)) \<and> complete_table chalk_table
   \<and> simulate_region_tournament
        (RegionBracket SEED_PATH_DICTIONARY chalk_table (module_world (\<lambda>n. 1 / 2)))
      = (None, after_round4 chalk_table (module_world (\<lambda>n. 1 / 2)))
   \<and> map_option length
        (matchups_of (RegionBracket SEED_PATH_DICTIONARY chalk_table (module_world (\<lambda>n. 1 / 2))))
      = Some 8
   \<and> draws (after_round4 chalk_table (module_world (\<lambda>n. 1 / 2))) = 15"
  using fifteen_matchups [OF loaded_module_world complete_chalk, of "\<lambda>n. 1 / 2"]
    loaded_module_world [of "\<lambda>n. 1 / 2"] complete_chalk
  by (simp add: module_world_def)

section \<open>Tables of certainties\<close>

lemma binary_entry:
  assumes "binary_table tbl" and "map_of tbl a = Some row" and "map_of row b = Some p"
  shows "p = 0 \<or> p = 1"
proof -
  from assms(2) have "(a, row) \<in> set tbl" by (rule map_of_SomeD)
  then have "row \<in> snd ` set tbl" by force
  moreover from assms(3) have "(b, p) \<in> set row" by (rule map_of_SomeD)
  then have "p \<in> snd ` set row" by force
  ultimately show ?thesis using assms(1) unfolding binary_table_def by blast
qed

lemma binary_table_entry:
  assumes "binary_table tbl" and "table_entry tbl a b = Some p"
  shows "p = 0 \<or> p = 1"
proof -
  from assms(2) obtain row where "map_of tbl a = Some row" and "map_of row b = Some p"
    by (auto simp: table_entry_def split: option.splits)
  with assms(1) show ?thesis by (rule binary_entry)
qed

lemma binary_win_probability:
  assumes "binary_table tbl"
  shows "win_probability tbl a b = 0 \<or> win_probability tbl a b = 1"
proof (cases "table_entry tbl a b")
  case (Some p)
  with binary_table_entry [OF assms Some] show ?thesis
    by (simp add: win_probability_def extract_forward)
next
  case None
  show ?thesis
  proof (cases "table_entry tbl b a")
    case (Some q)
    with binary_table_entry [OF assms Some] None show ?thesis
      by (auto simp: win_probability_def extract_backward)
  next
    case n: None
    with None show ?thesis by (simp add: win_probability_def extract_missing)
  qed
qed

lemma winners_chained:
  assumes "binary_table tbl" and "unit_samples g"
  shows "winners tbl g d ms = chained tbl ms"
proof (induction ms arbitrary: d)
  case Nil
  then show ?case by (simp add: chained_def)
next
  case (Cons m ms)
  obtain s opp where m: "m = (s, opp)" by (cases m)
  from assms(2) have g: "0 \<le> g d" "g d < 1" by (simp_all add: unit_samples_def)
  from binary_win_probability [OF assms(1), of s opp] g
  have "winner tbl g d s opp = (if win_probability tbl s opp = 1 then s else opp)"
    by (auto simp: winner_def)
  with Cons.IH [of "Suc d"] show ?case by (simp add: m chained_def)
qed

lemma round4_chained:
  assumes "binary_table tbl" and "unit_samples g"
  shows "round1_winners tbl g d = chained tbl first_round"
    and "round2_winners tbl g d = chained tbl (pairing (chained tbl first_round))"
    and "round3_winners tbl g d
           = chained tbl (pairing (chained tbl (pairing (chained tbl first_round))))"
    and "round4_winners tbl g d = chained_champion tbl"
  by (simp_all add: round1_winners_def round2_winners_def round3_winners_def
      round4_winners_def chained_champion_def winners_chained [OF assms])

lemma after_round4_points:
  assumes "module_loaded w"
  shows "points_by_seed (after_round4 tbl w)
       = award (round4_winners tbl (rng w) (draws w))
           (award (round3_winners tbl (rng w) (draws w))
              (award (round2_winners tbl (rng w) (draws w))
                 (award (round1_winners tbl (rng w) (draws w))
                    (map (\<lambda>n. (int n + 1, 0)) [0..<16]))))"
  by (simp only: after_round4_def after_round3_def after_round2_def after_round1_def
      round_result_fields fresh_bracket(3) [OF assms])

text \<open>
  For a table of certainties a sample of the unit interval decides nothing: the seed wins
  exactly when its probability is \<open>1\<close>. So two runs that start from the same lists, at
  whatever addresses and with whatever samples, go through the same iterations, return or
  raise alike, and keep the same points and the same seeds.
\<close>

lemma binary_lookup:
  assumes "binary_table tbl" and "extract_win_probability_by_seed tbl a b = Inr p"
  shows "p = 0 \<or> p = 1"
  using binary_win_probability [OF assms(1), of a b] extract_win_probability [OF assms(2)]
  by simp

lemma certain_outcome:
  assumes "unit_samples g" and "p = 0 \<or> p = 1"
  shows "(g d < p) = (p = 1)"
proof -
  from assms(1) have "0 \<le> g d" and "g d < 1" by (simp_all add: unit_samples_def)
  with assms(2) show ?thesis by auto
qed

lemma same_run_pop:
  assumes "same_run f A b b'" and "inj_on f A" and "a \<in> A"
  shows "same_run f A (b\<lparr>heap := (heap b)(a := rest)\<rparr>) (b'\<lparr>heap := (heap b')(f a := rest)\<rparr>)"
  using assms by (auto simp: same_run_def inj_on_def)

lemma same_run_draw:
  assumes "same_run f A b b'"
  shows "same_run f A (b\<lparr>draws := n\<rparr>) (b'\<lparr>draws := n'\<rparr>)"
  using assms by (simp add: same_run_def)

lemma same_run_points:
  assumes "same_run f A b b'"
  shows "same_run f A (b\<lparr>points_by_seed := P\<rparr>) (b'\<lparr>points_by_seed := P\<rparr>)"
  using assms by (simp add: same_run_def)

lemma update_apsnd:
  "AList.update k (f a) (map (apsnd f) u) = map (apsnd f) (AList.update k a u)"
  by (induction u) auto

lemma update_addresses: "snd ` set (AList.update k a u) \<subseteq> insert a (snd ` set u)"
  by (induction u) auto


lemma select_opponent_same:
  assumes "same_locals f A l l'"
  shows "same_locals f A (select_opponent keys l d) (select_opponent keys l' d)"
  using assms by (simp add: same_locals_def select_opponent_def split: descr.splits option.splits)

lemma same_run_keys:
  "same_run f A b b' \<Longrightarrow> map fst (current_matchup_state b') = map fst (current_matchup_state b)"
  by (simp add: same_run_def comp_def)

lemma round_body_same:
  assumes tbl: "binary_table (win_probability_dictionary b)" and inj: "inj_on f A"
    and run: "same_run f A b b'" and loc: "same_locals f A l l'" and a: "a \<in> A"
  shows "same_result f A (fst (round_body seed a l b)) (fst (round_body seed (f a) l' b'))
       \<and> same_run f A (snd (round_body seed a l b)) (snd (round_body seed (f a) l' b'))"
proof (cases "seed \<in> visited l")
  case True
  then have "seed \<in> visited l'" using loc by (simp add: same_locals_def)
  with True run loc show ?thesis by (simp add: round_body_skip same_result_def)
next
  case nv: False
  then have nv': "seed \<notin> visited l'" using loc by (simp add: same_locals_def)
  from run a have h': "heap b' (f a) = heap b a" by (simp add: same_run_def)
  show ?thesis
  proof (cases "heap b a")
    case Nil
    with h' have "heap b' (f a) = []" by simp
    with Nil nv nv' run show ?thesis by (simp add: round_body_empty same_result_def)
  next
    case (Cons d rest)
    with h' have hc': "heap b' (f a) = d # rest" by simp
    let ?keys = "map fst (current_matchup_state b)"
    have keys: "map fst (current_matchup_state b') = ?keys" using run by (rule same_run_keys)
    let ?l1 = "select_opponent ?keys l d" and ?l1' = "select_opponent ?keys l' d"
    have l1: "same_locals f A ?l1 ?l1'" using loc by (rule select_opponent_same)
    let ?b1 = "b\<lparr>heap := (heap b)(a := rest)\<rparr>"
    let ?b1' = "b'\<lparr>heap := (heap b')(f a := rest)\<rparr>"
    have run1: "same_run f A ?b1 ?b1'" using run inj a by (rule same_run_pop)
    have tbl': "win_probability_dictionary b' = win_probability_dictionary b"
      and pts': "points_by_seed b' = points_by_seed b"
      and u: "unit_samples (rng b)" and u': "unit_samples (rng b')"
      using run by (simp_all add: same_run_def)
    show ?thesis
    proof (cases "current_opponent ?l1")
      case None
      then have n': "current_opponent ?l1' = None" using l1 by (simp add: same_locals_def)
      have "round_body seed a l b = (Inl UnboundLocalError, ?b1)"
        using nv Cons None by (rule round_body_unbound)
      moreover have "round_body seed (f a) l' b' = (Inl UnboundLocalError, ?b1')"
        using nv' hc' n' [folded keys] by (rule round_body_unbound)
      ultimately show ?thesis using run1 by (simp add: same_result_def)
    next
      case (Some opp)
      then have opp': "current_opponent ?l1' = Some opp" using l1 by (simp add: same_locals_def)
      show ?thesis
      proof (cases "extract_win_probability_by_seed (win_probability_dictionary b) seed opp")
        case (Inl e)
        have "round_body seed a l b = (Inl e, ?b1)"
          using nv Cons Some Inl by (rule round_body_missing)
        moreover have "round_body seed (f a) l' b' = (Inl e, ?b1')"
          using nv' hc' opp' [folded keys] Inl [folded tbl'] by (rule round_body_missing)
        ultimately show ?thesis using run1 by (simp add: same_result_def)
      next
        case (Inr p)
        from binary_lookup [OF tbl Inr] have p: "p = 0 \<or> p = 1" .
        then have p0: "0 \<le> p" and p1: "p \<le> 1" by auto
        define W where "W = (if p = 1 then seed else opp)"
        have W: "W = (if rng b (draws b) < p then seed else opp)"
          unfolding W_def certain_outcome [OF u p] ..
        have W': "W = (if rng b' (draws b') < p then seed else opp)"
          unfolding W_def certain_outcome [OF u' p] ..
        let ?b2 = "b\<lparr>heap := (heap b)(a := rest), draws := Suc (draws b)\<rparr>"
        let ?b2' = "b'\<lparr>heap := (heap b')(f a := rest), draws := Suc (draws b')\<rparr>"
        have run2: "same_run f A ?b2 ?b2'"
          using same_run_draw [OF run1, of "Suc (draws b)" "Suc (draws b')"] by simp
        show ?thesis
        proof (cases "map_of (points_by_seed b) W")
          case None
          have "round_body seed a l b = (Inl (KeyError W), ?b2)"
            using nv Cons Some Inr p0 p1 W None by (rule round_body_keyerror)
          moreover have "round_body seed (f a) l' b' = (Inl (KeyError W), ?b2')"
            using nv' hc' opp' [folded keys] Inr [folded tbl'] p0 p1 W' None [folded pts']
            by (rule round_body_keyerror)
          ultimately show ?thesis using run2 by (simp add: same_result_def)
        next
          case (Some pts)
          let ?P = "AList.update W (pts + W) (points_by_seed b)"
          have "round_body seed a l b =
              (Inr (?l1\<lparr>updated_matchup_state := AList.update W a (updated_matchup_state l)\<rparr>),
               ?b2\<lparr>points_by_seed := ?P\<rparr>)"
            using round_body_play [OF nv Cons \<open>current_opponent ?l1 = Some opp\<close> Inr p0 p1 W Some]
            by simp
          moreover have "round_body seed (f a) l' b' =
              (Inr (?l1'\<lparr>updated_matchup_state := AList.update W (f a) (updated_matchup_state l')\<rparr>),
               ?b2'\<lparr>points_by_seed := ?P\<rparr>)"
            using round_body_play [OF nv' hc' opp' [folded keys] Inr [folded tbl'] p0 p1 W'
                Some [folded pts']]
            by (simp add: keys pts')
          moreover have "same_run f A (?b2\<lparr>points_by_seed := ?P\<rparr>) (?b2'\<lparr>points_by_seed := ?P\<rparr>)"
            using run2 by (rule same_run_points)
          moreover have "same_locals f A
              (?l1\<lparr>updated_matchup_state := AList.update W a (updated_matchup_state l)\<rparr>)
              (?l1'\<lparr>updated_matchup_state := AList.update W (f a) (updated_matchup_state l')\<rparr>)"
          proof -
            from loc a have "insert a (snd ` set (updated_matchup_state l)) \<subseteq> A"
              by (simp add: same_locals_def)
            with update_addresses [of W a "updated_matchup_state l"]
            have "snd ` set (AList.update W a (updated_matchup_state l)) \<subseteq> A"
              by (rule subset_trans)
            with l1 loc show ?thesis by (simp add: same_locals_def update_apsnd)
          qed
          ultimately show ?thesis by (simp add: same_result_def)
        qed
      qed
    qed
  qed
qed


lemma round_body_wpd:
  "win_probability_dictionary (snd (round_body seed a l b)) = win_probability_dictionary b"
  using round_body_frame [of seed a l b] by simp

lemma round_loop_same:
  assumes "binary_table (win_probability_dictionary b)" and "inj_on f A"
    and "same_run f A b b'" and "same_locals f A l l'" and "snd ` set items \<subseteq> A"
  shows "same_result f A (fst (round_loop items l b)) (fst (round_loop (map (apsnd f) items) l' b'))
       \<and> same_run f A (snd (round_loop items l b)) (snd (round_loop (map (apsnd f) items) l' b'))"
  using assms
proof (induction items arbitrary: l l' b b')
  case Nil
  then show ?case by (simp add: same_result_def)
next
  case (Cons item items)
  obtain seed a where item: "item = (seed, a)" by (cases item)
  from Cons.prems(5) have a: "a \<in> A" and rest: "snd ` set items \<subseteq> A" by (simp_all add: item)
  obtain r b1 where body: "round_body seed a l b = (r, b1)" by (cases "round_body seed a l b")
  obtain r' b1' where body': "round_body seed (f a) l' b' = (r', b1')"
    by (cases "round_body seed (f a) l' b'")
  from round_body_same [OF Cons.prems(1,2,3,4) a, of seed] body body'
  have res: "same_result f A r r'" and run1: "same_run f A b1 b1'" by simp_all
  show ?case
  proof (cases r)
    case (Inl e)
    with res have "r' = Inl e" by (simp add: same_result_def)
    with Inl body body' run1 show ?thesis by (simp add: item same_result_def)
  next
    case (Inr l1)
    with res obtain l1' where r': "r' = Inr l1'" and loc1: "same_locals f A l1 l1'"
      by (cases r') (simp_all add: same_result_def)
    have tbl1: "binary_table (win_probability_dictionary b1)"
      using round_body_wpd [of seed a l b] body Cons.prems(1) by simp
    from Cons.IH [OF tbl1 Cons.prems(2) run1 loc1 rest] Inr r' body body'
    show ?thesis by (simp add: item)
  qed
qed

lemma simulate_round_same:
  assumes "binary_table (win_probability_dictionary b)" and "inj_on f A" and "same_run f A b b'"
  shows "fst (simulate_round_and_update_current_state b)
           = fst (simulate_round_and_update_current_state b')
       \<and> same_run f A (snd (simulate_round_and_update_current_state b))
           (snd (simulate_round_and_update_current_state b'))"
proof -
  have init: "same_locals f A initial_locals initial_locals"
    by (simp add: same_locals_def initial_locals_def)
  from assms(3) have cms: "current_matchup_state b' = map (apsnd f) (current_matchup_state b)"
    and sub: "snd ` set (current_matchup_state b) \<subseteq> A" by (simp_all add: same_run_def)
  obtain r b1 where loop: "round_loop (current_matchup_state b) initial_locals b = (r, b1)"
    by (cases "round_loop (current_matchup_state b) initial_locals b")
  obtain r' b1' where loop': "round_loop (current_matchup_state b') initial_locals b' = (r', b1')"
    by (cases "round_loop (current_matchup_state b') initial_locals b'")
  from round_loop_same [OF assms(1,2,3) init sub] loop loop' [unfolded cms]
  have res: "same_result f A r r'" and run1: "same_run f A b1 b1'" by simp_all
  show ?thesis
  proof (cases r)
    case (Inl e)
    with res have "r' = Inl e" by (simp add: same_result_def)
    with Inl loop loop' run1 show ?thesis
      by (simp add: simulate_round_and_update_current_state_def)
  next
    case (Inr l1)
    with res obtain l1' where r': "r' = Inr l1'" and loc1: "same_locals f A l1 l1'"
      by (cases r') (simp_all add: same_result_def)
    from run1 loc1 have "same_run f A (b1\<lparr>current_matchup_state := updated_matchup_state l1\<rparr>)
        (b1'\<lparr>current_matchup_state := updated_matchup_state l1'\<rparr>)"
      by (simp add: same_run_def same_locals_def)
    with Inr r' loop loop' show ?thesis
      by (simp add: simulate_round_and_update_current_state_def)
  qed
qed

lemma simulate_round_wpd:
  "win_probability_dictionary (snd (simulate_round_and_update_current_state b))
     = win_probability_dictionary b"
proof -
  have "win_probability_dictionary (snd (round_loop items l b)) = win_probability_dictionary b"
    for items l
  proof (induction items arbitrary: l b)
    case Nil
    then show ?case by simp
  next
    case (Cons item items)
    obtain seed a where item: "item = (seed, a)" by (cases item)
    obtain r b1 where body: "round_body seed a l b = (r, b1)" by (cases "round_body seed a l b")
    with round_body_wpd [of seed a l b] have "win_probability_dictionary b1 = win_probability_dictionary b"
      by simp
    with Cons.IH [of _ b1] body show ?case by (cases r) (simp_all add: item)
  qed
  from this [of "current_matchup_state b" initial_locals]
  show ?thesis
    by (cases "round_loop (current_matchup_state b) initial_locals b")
       (auto simp: simulate_round_and_update_current_state_def split: sum.splits)
qed

lemma simulate_rounds_same:
  assumes "binary_table (win_probability_dictionary b)" and "inj_on f A" and "same_run f A b b'"
  shows "fst (simulate_rounds n b) = fst (simulate_rounds n b')
       \<and> same_run f A (snd (simulate_rounds n b)) (snd (simulate_rounds n b'))"
  using assms
proof (induction n arbitrary: b b')
  case 0
  then show ?case by simp
next
  case (Suc n)
  obtain r b1 where rnd: "simulate_round_and_update_current_state b = (r, b1)"
    by (cases "simulate_round_and_update_current_state b")
  obtain r' b1' where rnd': "simulate_round_and_update_current_state b' = (r', b1')"
    by (cases "simulate_round_and_update_current_state b'")
  from simulate_round_same [OF Suc.prems] rnd rnd'
  have r: "r' = r" and run1: "same_run f A b1 b1'" by simp_all
  show ?case
  proof (cases r)
    case None
    have "binary_table (win_probability_dictionary b1)"
      using simulate_round_wpd [of b] rnd Suc.prems(1) by simp
    from Suc.IH [OF this Suc.prems(2) run1] None r rnd rnd' show ?thesis by simp
  next
    case (Some e)
    with r rnd rnd' run1 show ?thesis by simp
  qed
qed


lemma relocate_slot_paths: "map (relocate t t') (slot_paths t) = slot_paths t'"
  by (simp add: relocate_def slot_paths_def)

lemma relocate_inj: "inj_on (relocate t t') (set (slot_paths t))"
  by (auto simp: inj_on_def relocate_def slot_paths_def)

lemma fresh_same_run:
  assumes "module_loaded w" and "module_loaded w'"
    and "unit_samples (rng w)" and "unit_samples (rng w')"
  shows "same_run (relocate (top w) (top w')) (set (slot_paths (top w)))
           (RegionBracket SEED_PATH_DICTIONARY tbl w) (RegionBracket SEED_PATH_DICTIONARY tbl w')"
proof -
  let ?f = "relocate (top w) (top w')"
  let ?b = "RegionBracket SEED_PATH_DICTIONARY tbl w"
  let ?b' = "RegionBracket SEED_PATH_DICTIONARY tbl w'"
  note f = fresh_bracket [OF assms(1), of tbl] and f' = fresh_bracket [OF assms(2), of tbl]
  have cms: "current_matchup_state ?b' = map (apsnd ?f) (current_matchup_state ?b)"
    unfolding f(1) f'(1) relocate_slot_paths [of "top w" "top w'", symmetric]
    by (simp add: zip_map2 apsnd_def map_prod_def)
  have sub: "snd ` set (current_matchup_state ?b) \<subseteq> set (slot_paths (top w))"
    unfolding f(1) by (auto dest: set_zip_rightD)
  have "map (heap ?b') (map ?f (slot_paths (top w))) = map (heap ?b) (slot_paths (top w))"
    unfolding relocate_slot_paths f(2) f'(2) ..
  then have heap: "\<forall>a \<in> set (slot_paths (top w)). heap ?b' (?f a) = heap ?b a"
    by (simp add: comp_def)
  show ?thesis
    unfolding same_run_def
    using cms sub heap assms(3,4) by (simp add: f(3,5,6) f'(3,5,6))
qed

text \<open>
  C9, as amended. For a table of certainties, complete or not, two tournaments of fresh
  instances on \<^verbatim>\<open>SEED_PATH_DICTIONARY\<close>, in any two worlds and with any two streams of
  samples, have the same outcome (both return, or both raise the same exception), the
  same \<^verbatim>\<open>points_by_seed\<close> and the same seeds in \<^verbatim>\<open>current_matchup_state\<close>. When the table
  is also complete they return, with one entry in \<^verbatim>\<open>current_matchup_state\<close>, keyed by the
  champion that the chain of deterministic wins through the bracket gives.
\<close>

theorem deterministic_tournament:
  assumes "module_loaded w" and "module_loaded w'"
    and "unit_samples (rng w)" and "unit_samples (rng w')"
    and "binary_table tbl"
  shows "fst (simulate_region_tournament (RegionBracket SEED_PATH_DICTIONARY tbl w))
      = fst (simulate_region_tournament (RegionBracket SEED_PATH_DICTIONARY tbl w'))
    \<and> points_by_seed (snd (simulate_region_tournament (RegionBracket SEED_PATH_DICTIONARY tbl w)))
      = points_by_seed (snd (simulate_region_tournament (RegionBracket SEED_PATH_DICTIONARY tbl w')))
    \<and> map fst (current_matchup_state
         (snd (simulate_region_tournament (RegionBracket SEED_PATH_DICTIONARY tbl w))))
      = map fst (current_matchup_state
         (snd (simulate_region_tournament (RegionBracket SEED_PATH_DICTIONARY tbl w'))))
    \<and> (complete_table tbl \<longrightarrow>
         fst (simulate_region_tournament (RegionBracket SEED_PATH_DICTIONARY tbl w)) = None
       \<and> map fst (current_matchup_state
            (snd (simulate_region_tournament (RegionBracket SEED_PATH_DICTIONARY tbl w))))
         = chained_champion tbl
       \<and> length (chained_champion tbl) = 1)"
proof -
  let ?f = "relocate (top w) (top w')" and ?A = "set (slot_paths (top w))"
  let ?b = "RegionBracket SEED_PATH_DICTIONARY tbl w"
  let ?b' = "RegionBracket SEED_PATH_DICTIONARY tbl w'"
  have tbl: "binary_table (win_probability_dictionary ?b)"
    using assms(5) by (simp add: fresh_bracket(6) [OF assms(1)])
  from simulate_rounds_same [OF tbl relocate_inj fresh_same_run [OF assms(1,2,3,4)], of 4]
  have out: "fst (simulate_region_tournament ?b) = fst (simulate_region_tournament ?b')"
    and run: "same_run ?f ?A (snd (simulate_region_tournament ?b))
                (snd (simulate_region_tournament ?b'))"
    by (simp_all add: simulate_region_tournament_def)
  from run have pts: "points_by_seed (snd (simulate_region_tournament ?b))
      = points_by_seed (snd (simulate_region_tournament ?b'))"
    by (simp add: same_run_def)
  from run have keys: "map fst (current_matchup_state (snd (simulate_region_tournament ?b)))
      = map fst (current_matchup_state (snd (simulate_region_tournament ?b')))"
    by (simp add: same_run_keys)
  have champ: "fst (simulate_region_tournament ?b) = None
       \<and> map fst (current_matchup_state (snd (simulate_region_tournament ?b)))
         = chained_champion tbl
       \<and> length (chained_champion tbl) = 1" if c: "complete_table tbl"
  proof -
    note ch = round4_chained [OF assms(5) assms(3)]
    have len: "length (chained_champion tbl) = 1"
      using round4_props(1) [of tbl "rng w" "draws w"] by (simp only: ch(4))
    then have "map fst (zip (chained_champion tbl) (take 1 (slot_paths (top w))))
        = chained_champion tbl"
      by (simp add: map_fst_zip slot_paths_def)
    with len show ?thesis
      by (simp add: tournament_run(4) [OF assms(1) c] after_round4_fields(2) [OF assms(1)] ch(4))
  qed
  from out pts keys champ show ?thesis by blast
qed

lemma unit_fair_coin: "unit_samples fair_coin"
  by (simp add: unit_samples_def fair_coin_def)

lemma binary_chalk: "binary_table chalk_table"
  by code_simp

theorem deterministic_tournament_witness:
  "module_loaded (module_world fair_coin) \<and> module_loaded (module_world (\<lambda>n. 0))
   \<and> unit_samples fair_coin \<and> unit_samples (\<lambda>n. 0)
   \<and> binary_table chalk_table \<and> complete_table chalk_table
   \<and> points_by_seed (snd (simulate_region_tournament
         (RegionBracket SEED_PATH_DICTIONARY chalk_table (module_world fair_coin))))
     = points_by_seed (snd (simulate_region_tournament
         (RegionBracket SEED_PATH_DICTIONARY chalk_table (module_world (\<lambda>n. 0)))))
   \<and> fst (simulate_region_tournament
         (RegionBracket SEED_PATH_DICTIONARY chalk_table (module_world fair_coin))) = None
   \<and> map fst (current_matchup_state (snd (simulate_region_tournament
         (RegionBracket SEED_PATH_DICTIONARY chalk_table (module_world fair_coin))))) = [1]
   \<and> map fst (current_matchup_state (snd (simulate_region_tournament
         (RegionBracket SEED_PATH_DICTIONARY chalk_table (module_world (\<lambda>n. 0)))))) = [1]"
proof -
  have u0: "unit_samples (\<lambda>n. 0)" by (simp add: unit_samples_def)
  have u: "unit_samples (rng (module_world fair_coin))"
    and u': "unit_samples (rng (module_world (\<lambda>n. 0)))"
    using unit_fair_coin u0 by (simp_all add: module_world_def)
  have champ: "chained_champion chalk_table = [1]" by code_simp
  let ?r = "simulate_region_tournament
         (RegionBracket SEED_PATH_DICTIONARY chalk_table (module_world fair_coin))"
  let ?r' = "simulate_region_tournament
         (RegionBracket SEED_PATH_DICTIONARY chalk_table (module_world (\<lambda>n. 0)))"
  note d = deterministic_tournament [OF loaded_module_world loaded_module_world u u' binary_chalk]
  from d have pts: "points_by_seed (snd ?r) = points_by_seed (snd ?r')" by blast
  from d have keys: "map fst (current_matchup_state (snd ?r))
      = map fst (current_matchup_state (snd ?r'))" by blast
  from d complete_chalk have ret: "fst ?r = None" by blast
  from d complete_chalk have "map fst (current_matchup_state (snd ?r)) = chained_champion chalk_table"
    by blast
  then have k: "map fst (current_matchup_state (snd ?r)) = [1]" by (simp only: champ)
  with keys have k': "map fst (current_matchup_state (snd ?r')) = [1]" by simp
  from pts ret k k' loaded_module_world [of fair_coin] loaded_module_world [of "\<lambda>n. 0"]
    unit_fair_coin u0 complete_chalk binary_chalk
  show ?thesis by blast
qed

text \<open>
  C9 as stated fails for a table of certainties that is not complete: the only
  probability of the table \<^verbatim>\<open>{1: {16: 1.0}}\<close> is \<open>1\<close>, and the tournament raises at the
  second matchup of the first round, \<open>2\<close> against \<open>15\<close>, leaving eight entries in
  \<^verbatim>\<open>current_matchup_state\<close>.
\<close>

theorem deterministic_tournament_counterexample:
  "binary_table [(1, [(16, 1)])] \<and> module_loaded (module_world fair_coin) \<and> unit_samples fair_coin
   \<and> fst (simulate_region_tournament
        (RegionBracket SEED_PATH_DICTIONARY [(1, [(16, 1)])] (module_world fair_coin)))
     = Some (ValueError_missing_matchup 2 15)
   \<and> length (current_matchup_state (snd (simulate_region_tournament
        (RegionBracket SEED_PATH_DICTIONARY [(1, [(16, 1)])] (module_world fair_coin))))) = 8"
proof -
  have "binary_table [(1, [(16, 1)])]" by (simp add: binary_table_def)
  moreover have "fst (simulate_region_tournament
        (RegionBracket SEED_PATH_DICTIONARY [(1, [(16, 1)])] (module_world fair_coin)))
     = Some (ValueError_missing_matchup 2 15)" by code_simp
  moreover have "length (current_matchup_state (snd (simulate_region_tournament
        (RegionBracket SEED_PATH_DICTIONARY [(1, [(16, 1)])] (module_world fair_coin))))) = 8"
    by code_simp
  ultimately show ?thesis using loaded_module_world unit_fair_coin by blast
qed

section \<open>A missing probability\<close>

lemma round_loop_append:
  "round_loop xs l b = (Inr l1, b1) \<Longrightarrow> round_loop (xs @ ys) l b = round_loop ys l1 b1"
proof (induction xs arbitrary: l b)
  case Nil
  then show ?case by simp
next
  case (Cons x xs)
  obtain seed a where x: "x = (seed, a)" by (cases x)
  obtain r b' where body: "round_body seed a l b = (r, b')" by (cases "round_body seed a l b")
  show ?case
  proof (cases r)
    case (Inl e)
    with Cons.prems body show ?thesis by (simp add: x)
  next
    case (Inr l')
    with Cons.prems body have "round_loop xs l' b' = (Inr l1, b1)" by (simp add: x)
    from Cons.IH [OF this] Inr body show ?thesis by (simp add: x)
  qed
qed

lemma simulate_rounds_add:
  "simulate_rounds k b = (None, b1) \<Longrightarrow> simulate_rounds (k + n) b = simulate_rounds n b1"
proof (induction k arbitrary: b)
  case 0
  then show ?case by simp
next
  case (Suc k)
  obtain r b' where round: "simulate_round_and_update_current_state b = (r, b')"
    by (cases "simulate_round_and_update_current_state b")
  show ?case
  proof (cases r)
    case None
    with Suc.prems round have "simulate_rounds k b' = (None, b1)" by simp
    from Suc.IH [OF this] None round show ?thesis by simp
  next
    case (Some e)
    with Suc.prems round show ?thesis by simp
  qed
qed

text \<open>
  C3. The lookup for the pair \<open>(x, y)\<close> raises exactly when the table has an entry in
  neither direction, and what it raises is the \<^verbatim>\<open>ValueError\<close> whose message holds the pair
  (the missing matchup probability of the specification). In a round, the failed lookup
  of a matchup ends the iteration with that error, after the pop and before any sample is
  drawn or any points are awarded; the loop stops at that iteration, the round returns the
  error without replacing the state, and the tournament returns it without running the
  remaining rounds: nothing is retried and no default probability is used.
\<close>

theorem missing_matchup_aborts:
  "((\<exists>e. extract_win_probability_by_seed tbl x y = Inl e)
      \<longleftrightarrow> table_entry tbl x y = None \<and> table_entry tbl y x = None)
   \<and> (extract_win_probability_by_seed tbl x y = Inl e' \<longrightarrow> e' = ValueError_missing_matchup x y)
   \<and> (seed \<notin> visited l1 \<and> heap b1 a = d # rest
        \<and> current_opponent (select_opponent (map fst (current_matchup_state b1)) l1 d) = Some opp
        \<and> extract_win_probability_by_seed (win_probability_dictionary b1) seed opp = Inl e
        \<longrightarrow> round_body seed a l1 b1 = (Inl e, b1\<lparr>heap := (heap b1)(a := rest)\<rparr>))
   \<and> (round_loop before l b = (Inr l1, b1) \<and> round_body seed a l1 b1 = (Inl e, b2)
        \<longrightarrow> round_loop (before @ (seed, a) # todo) l b = (Inl e, b2))
   \<and> (round_loop (current_matchup_state b) initial_locals b = (Inl e, b2)
        \<longrightarrow> simulate_round_and_update_current_state b = (Some e, b2))
   \<and> (simulate_rounds k b0 = (None, b) \<and> simulate_round_and_update_current_state b = (Some e, b2)
        \<longrightarrow> simulate_rounds (k + Suc n) b0 = (Some e, b2))"
proof (intro conjI impI)
  show "(\<exists>e. extract_win_probability_by_seed tbl x y = Inl e)
      \<longleftrightarrow> table_entry tbl x y = None \<and> table_entry tbl y x = None"
    by (rule extract_fails_iff)
  show "e' = ValueError_missing_matchup x y"
    if "extract_win_probability_by_seed tbl x y = Inl e'"
    using that by (rule extract_error_is_missing)
  show "round_body seed a l1 b1 = (Inl e, b1\<lparr>heap := (heap b1)(a := rest)\<rparr>)"
    if "seed \<notin> visited l1 \<and> heap b1 a = d # rest
        \<and> current_opponent (select_opponent (map fst (current_matchup_state b1)) l1 d) = Some opp
        \<and> extract_win_probability_by_seed (win_probability_dictionary b1) seed opp = Inl e"
    using that round_body_missing [of seed l1 b1 a d rest opp e] by blast
  show "round_loop (before @ (seed, a) # todo) l b = (Inl e, b2)"
    if "round_loop before l b = (Inr l1, b1) \<and> round_body seed a l1 b1 = (Inl e, b2)"
    using that round_loop_append [of before l b l1 b1 "(seed, a) # todo"] by simp
  show "simulate_round_and_update_current_state b = (Some e, b2)"
    if "round_loop (current_matchup_state b) initial_locals b = (Inl e, b2)"
    using that by (simp add: simulate_round_and_update_current_state_def)
  show "simulate_rounds (k + Suc n) b0 = (Some e, b2)"
    if "simulate_rounds k b0 = (None, b) \<and> simulate_round_and_update_current_state b = (Some e, b2)"
    using that simulate_rounds_add [of k b0 b "Suc n"] by simp
qed

theorem missing_matchup_aborts_witness:
  "table_entry [(1, [])] 1 16 = None \<and> table_entry [(1, [])] 16 1 = None
   \<and> extract_win_probability_by_seed [(1, [])] 1 16 = Inl (ValueError_missing_matchup 1 16)
   \<and> fst (simulate_region_tournament
        (RegionBracket SEED_PATH_DICTIONARY [(1, [])] (module_world fair_coin)))
      = Some (ValueError_missing_matchup 1 16)
   \<and> draws (snd (simulate_region_tournament
        (RegionBracket SEED_PATH_DICTIONARY [(1, [])] (module_world fair_coin)))) = 0"
proof -
  let ?tbl = "[(1, [])] :: win_probability_dictionary"
  let ?b = "RegionBracket SEED_PATH_DICTIONARY ?tbl (module_world fair_coin)"
  have n1: "table_entry ?tbl 1 16 = None" and n2: "table_entry ?tbl 16 1 = None"
    by (simp_all add: table_entry_def)
  note t = missing_matchup_aborts [where tbl = ?tbl and x = 1 and y = 16 and b = ?b and ?b0.0 = ?b
      and k = 0 and n = 3 and ?b1.0 = ?b and ?l1.0 = initial_locals and seed = 1 and a = 8
      and d = "Seed 16" and opp = 16 and l = initial_locals and before = "[]"
      and e = "ValueError_missing_matchup 1 16"
      and rest = "[Tuple [8, 9], Tuple [4, 5, 12, 13], Tuple [2, 3, 6, 7, 10, 11, 14, 15]]"
      and todo = "tl (current_matchup_state ?b)"
      and ?b2.0 = "?b\<lparr>heap := (heap ?b)(8 := [Tuple [8, 9], Tuple [4, 5, 12, 13],
            Tuple [2, 3, 6, 7, 10, 11, 14, 15]])\<rparr>"]
  from t n1 n2 obtain e where "extract_win_probability_by_seed ?tbl 1 16 = Inl e" by blast
  with t have look: "extract_win_probability_by_seed ?tbl 1 16 = Inl (ValueError_missing_matchup 1 16)"
    by blast
  have pre: "1 \<notin> visited initial_locals"
    "heap ?b 8 = Seed 16 # [Tuple [8, 9], Tuple [4, 5, 12, 13], Tuple [2, 3, 6, 7, 10, 11, 14, 15]]"
    "current_opponent (select_opponent (map fst (current_matchup_state ?b)) initial_locals (Seed 16))
       = Some 16"
    "win_probability_dictionary ?b = ?tbl"
    "current_matchup_state ?b = (1, 8) # tl (current_matchup_state ?b)"
    by code_simp+
  from t pre look have body: "round_body 1 8 initial_locals ?b
      = (Inl (ValueError_missing_matchup 1 16),
         ?b\<lparr>heap := (heap ?b)(8 := [Tuple [8, 9], Tuple [4, 5, 12, 13],
            Tuple [2, 3, 6, 7, 10, 11, 14, 15]])\<rparr>)"
    by simp
  with t have "round_loop ([] @ (1, 8) # tl (current_matchup_state ?b)) initial_locals ?b
      = (Inl (ValueError_missing_matchup 1 16),
         ?b\<lparr>heap := (heap ?b)(8 := [Tuple [8, 9], Tuple [4, 5, 12, 13],
            Tuple [2, 3, 6, 7, 10, 11, 14, 15]])\<rparr>)"
    by simp
  with pre(5) have "round_loop (current_matchup_state ?b) initial_locals ?b
      = (Inl (ValueError_missing_matchup 1 16),
         ?b\<lparr>heap := (heap ?b)(8 := [Tuple [8, 9], Tuple [4, 5, 12, 13],
            Tuple [2, 3, 6, 7, 10, 11, 14, 15]])\<rparr>)"
    by simp
  with t have "simulate_round_and_update_current_state ?b
      = (Some (ValueError_missing_matchup 1 16),
         ?b\<lparr>heap := (heap ?b)(8 := [Tuple [8, 9], Tuple [4, 5, 12, 13],
            Tuple [2, 3, 6, 7, 10, 11, 14, 15]])\<rparr>)"
    by blast
  with t have "simulate_rounds (0 + Suc 3) ?b
      = (Some (ValueError_missing_matchup 1 16),
         ?b\<lparr>heap := (heap ?b)(8 := [Tuple [8, 9], Tuple [4, 5, 12, 13],
            Tuple [2, 3, 6, 7, 10, 11, 14, 15]])\<rparr>)"
    by simp
  then have "simulate_region_tournament ?b
      = (Some (ValueError_missing_matchup 1 16),
         ?b\<lparr>heap := (heap ?b)(8 := [Tuple [8, 9], Tuple [4, 5, 12, 13],
            Tuple [2, 3, 6, 7, 10, 11, 14, 15]])\<rparr>)"
    by (simp add: simulate_region_tournament_def eval_nat_numeral)
  moreover have "draws ?b = 0" by code_simp
  ultimately show ?thesis using n1 n2 look by simp
qed

section \<open>The points\<close>

lemma points_valid_lookup:
  assumes "points_valid P" and "k \<in> set [1..16]"
  shows "\<exists>v. map_of P k = Some v \<and> 0 \<le> v"
proof -
  from assms have "k \<in> set (map fst P)" by (simp add: points_valid_def)
  then obtain v where v: "map_of P k = Some v"
    by (cases "map_of P k") (auto simp: map_of_eq_None_iff)
  then have "(k, v) \<in> set P" by (rule map_of_SomeD)
  then have "v \<in> snd ` set P" by force
  with assms(1) v show ?thesis by (auto simp: points_valid_def)
qed

lemma points_grow_refl: "points_valid P \<Longrightarrow> points_grow P P"
  unfolding points_grow_def using points_valid_lookup by blast

lemma points_grow_trans: "points_grow P Q \<Longrightarrow> points_grow Q R \<Longrightarrow> points_grow P R"
  unfolding points_grow_def by (metis option.inject order_trans)

lemma points_valid_update:
  assumes valid: "points_valid P" and pts: "map_of P W = Some pts"
  shows "points_valid (AList.update W (pts + W) P)"
    and "points_grow P (AList.update W (pts + W) P)"
proof -
  from pts have "W \<in> set (map fst P)" by (auto dest: map_of_SomeD intro: rev_image_eqI)
  with valid have W: "1 \<le> W" by (simp add: points_valid_def)
  from pts have "(W, pts) \<in> set P" by (rule map_of_SomeD)
  then have "pts \<in> snd ` set P" by force
  with valid have p0: "0 \<le> pts" by (auto simp: points_valid_def)
  have sub: "set (AList.update W (pts + W) P) \<subseteq> set P \<union> {(W, pts + W)}"
    by (induction P) auto
  show "points_valid (AList.update W (pts + W) P)"
    unfolding points_valid_def
  proof
    show "map fst (AList.update W (pts + W) P) = [1..16]"
      using update_present_keys [OF pts] valid by (simp add: points_valid_def)
    show "\<forall>v \<in> snd ` set (AList.update W (pts + W) P). 0 \<le> v"
    proof
      fix v assume "v \<in> snd ` set (AList.update W (pts + W) P)"
      with sub have "v \<in> snd ` set P \<or> v = pts + W" by force
      with valid p0 W show "0 \<le> v" by (auto simp: points_valid_def)
    qed
  qed
  show "points_grow P (AList.update W (pts + W) P)"
    unfolding points_grow_def
  proof
    fix k :: int assume k: "k \<in> set [1..16]"
    from points_valid_lookup [OF valid k] obtain v where v: "map_of P k = Some v" by blast
    show "\<exists>v v'. map_of P k = Some v \<and> map_of (AList.update W (pts + W) P) k = Some v' \<and> v \<le> v'"
    proof (cases "k = W")
      case True
      with v pts W show ?thesis by (simp add: AList.update_conv')
    next
      case False
      with v show ?thesis by (simp add: AList.update_conv')
    qed
  qed
qed

lemma round_body_points:
  assumes valid: "points_valid (points_by_seed b)" and run: "round_body seed a l b = (r, b')"
  shows "points_valid (points_by_seed b') \<and> points_grow (points_by_seed b) (points_by_seed b')"
proof (cases "seed \<in> visited l")
  case True
  with run have "b' = b" by (simp add: round_body_skip)
  with valid show ?thesis by (simp add: points_grow_refl)
next
  case False
  show ?thesis
  proof (cases r)
    case (Inl e)
    with run have "points_by_seed b' = points_by_seed b" by (simp add: round_body_error)
    with valid show ?thesis by (simp add: points_grow_refl)
  next
    case (Inr l')
    with run have "round_body seed a l b = (Inr l', b')" by simp
    from round_body_matchup [OF this False] obtain opp pts rest where
      pts: "map_of (points_by_seed b)
          (winner (win_probability_dictionary b) (rng b) (draws b) seed opp) = Some pts"
      and b': "b' = b\<lparr>heap := (heap b)(a := rest), draws := Suc (draws b),
        points_by_seed :=
          AList.update (winner (win_probability_dictionary b) (rng b) (draws b) seed opp)
            (pts + winner (win_probability_dictionary b) (rng b) (draws b) seed opp)
            (points_by_seed b)\<rparr>"
      by blast
    from points_valid_update [OF valid pts] show ?thesis by (simp add: b')
  qed
qed

lemma round_loop_points:
  assumes "points_valid (points_by_seed b)" and "round_loop items l b = (r, b')"
  shows "points_valid (points_by_seed b') \<and> points_grow (points_by_seed b) (points_by_seed b')"
  using assms
proof (induction items arbitrary: l b)
  case Nil
  then show ?case by (simp add: points_grow_refl)
next
  case (Cons item items)
  obtain seed a where item: "item = (seed, a)" by (cases item)
  obtain r1 b1 where body: "round_body seed a l b = (r1, b1)" by (cases "round_body seed a l b")
  from round_body_points [OF Cons.prems(1) body]
  have v1: "points_valid (points_by_seed b1)"
    and g1: "points_grow (points_by_seed b) (points_by_seed b1)" by simp_all
  show ?case
  proof (cases r1)
    case (Inl e)
    with Cons.prems(2) body have "b' = b1" by (simp add: item)
    with v1 g1 show ?thesis by simp
  next
    case (Inr l1)
    with Cons.prems(2) body have "round_loop items l1 b1 = (r, b')" by (simp add: item)
    from Cons.IH [OF v1 this] g1 show ?thesis by (blast intro: points_grow_trans)
  qed
qed

lemma simulate_round_points:
  assumes "points_valid (points_by_seed b)"
    and "simulate_round_and_update_current_state b = (r, b')"
  shows "points_valid (points_by_seed b') \<and> points_grow (points_by_seed b) (points_by_seed b')"
proof -
  obtain r1 b1 where loop: "round_loop (current_matchup_state b) initial_locals b = (r1, b1)"
    by (cases "round_loop (current_matchup_state b) initial_locals b")
  from round_loop_points [OF assms(1) loop]
  have "points_valid (points_by_seed b1) \<and> points_grow (points_by_seed b) (points_by_seed b1)" .
  moreover from assms(2) loop have "points_by_seed b' = points_by_seed b1"
    by (cases r1) (auto simp: simulate_round_and_update_current_state_def)
  ultimately show ?thesis by simp
qed

lemma simulate_rounds_points:
  assumes "points_valid (points_by_seed b)" and "simulate_rounds n b = (r, b')"
  shows "points_valid (points_by_seed b')"
  using assms
proof (induction n arbitrary: b)
  case 0
  then show ?case by simp
next
  case (Suc n)
  obtain r1 b1 where round: "simulate_round_and_update_current_state b = (r1, b1)"
    by (cases "simulate_round_and_update_current_state b")
  from simulate_round_points [OF Suc.prems(1) round]
  have v1: "points_valid (points_by_seed b1)" by simp
  show ?case
  proof (cases r1)
    case None
    with Suc.prems(2) round have "simulate_rounds n b1 = (r, b')" by simp
    from Suc.IH [OF v1 this] show ?thesis .
  next
    case (Some e)
    with Suc.prems(2) round have "b' = b1" by simp
    with v1 show ?thesis by simp
  qed
qed

lemma simulate_rounds_Suc:
  "simulate_rounds (Suc n) b =
     (case simulate_rounds n b of
        (Some e, b') \<Rightarrow> (Some e, b')
      | (None, b') \<Rightarrow> simulate_round_and_update_current_state b')"
proof (cases "simulate_rounds n b")
  case (Pair r b')
  show ?thesis
  proof (cases r)
    case None
    with Pair simulate_rounds_add [of n b b' 1] have
      "simulate_rounds (Suc n) b = simulate_rounds 1 b'" by simp
    with Pair None show ?thesis by (simp split: prod.splits option.splits)
  next
    case (Some e)
    have "simulate_rounds m b = (Some e, b') \<Longrightarrow> simulate_rounds (Suc m) b = (Some e, b')" for m
    proof (induction m arbitrary: b)
      case 0
      then show ?case by simp
    next
      case (Suc m)
      then show ?case
        by (cases "simulate_round_and_update_current_state b")
           (auto split: option.splits simp del: simulate_rounds.simps(2)
             simp add: simulate_rounds.simps(2) [of "Suc m"] simulate_rounds.simps(2) [of m])
    qed
    with Pair Some show ?thesis by simp
  qed
qed

lemma initial_points:
  "points_by_seed (RegionBracket spd wpd w) =
     [(1, 0), (2, 0), (3, 0), (4, 0), (5, 0), (6, 0), (7, 0), (8, 0),
      (9, 0), (10, 0), (11, 0), (12, 0), (13, 0), (14, 0), (15, 0), (16, 0)]"
proof -
  have "map (\<lambda>n. (int n + 1, 0 :: int)) [0..<16] =
     [(1, 0), (2, 0), (3, 0), (4, 0), (5, 0), (6, 0), (7, 0), (8, 0),
      (9, 0), (10, 0), (11, 0), (12, 0), (13, 0), (14, 0), (15, 0), (16, 0)]"
    by code_simp
  then show ?thesis by (simp add: RegionBracket_def split: prod.splits)
qed


lemma initial_points_valid: "points_valid (points_by_seed (RegionBracket spd wpd w))"
proof -
  have "points_valid [(1, 0), (2, 0), (3, 0), (4, 0), (5, 0), (6, 0), (7, 0), (8, 0),
      (9, 0), (10, 0), (11, 0), (12, 0), (13, 0), (14, 0), (15, 0), (16, 0)]"
    by code_simp
  then show ?thesis by (simp only: initial_points)
qed

text \<open>
  C8. A new instance has the sixteen entries \<open>1..16\<close> in \<^verbatim>\<open>points_by_seed\<close>, each \<open>0\<close>.
  After any number \<open>n\<close> of rounds of any instance, whatever the schedule, the table and
  the samples, and whether or not a round raised, the keys are still \<open>1..16\<close>, each value
  is an integer that is not negative, and no value after the next round is below the
  value before it.
\<close>

theorem points_by_seed_invariant:
  "points_by_seed (RegionBracket spd wpd w) =
     [(1, 0), (2, 0), (3, 0), (4, 0), (5, 0), (6, 0), (7, 0), (8, 0),
      (9, 0), (10, 0), (11, 0), (12, 0), (13, 0), (14, 0), (15, 0), (16, 0)]
   \<and> map fst (points_by_seed (snd (simulate_rounds n (RegionBracket spd wpd w)))) = [1..16]
   \<and> (\<forall>k \<in> set [1..16]. \<exists>v v'.
         map_of (points_by_seed (snd (simulate_rounds n (RegionBracket spd wpd w)))) k = Some v
       \<and> map_of (points_by_seed (snd (simulate_rounds (Suc n) (RegionBracket spd wpd w)))) k
           = Some v'
       \<and> 0 \<le> v \<and> v \<le> v')"
proof -
  let ?b0 = "RegionBracket spd wpd w"
  obtain r bn where n: "simulate_rounds n ?b0 = (r, bn)" by (cases "simulate_rounds n ?b0")
  obtain r' bn' where n': "simulate_rounds (Suc n) ?b0 = (r', bn')"
    by (cases "simulate_rounds (Suc n) ?b0")
  from simulate_rounds_points [OF initial_points_valid n]
  have valid: "points_valid (points_by_seed bn)" .
  have grow: "points_grow (points_by_seed bn) (points_by_seed bn')"
  proof (cases r)
    case None
    with n n' have "simulate_round_and_update_current_state bn = (r', bn')"
      by (simp only: simulate_rounds_Suc) simp
    from simulate_round_points [OF valid this] show ?thesis by simp
  next
    case (Some e)
    with n n' have "bn' = bn" by (simp only: simulate_rounds_Suc) simp
    with valid show ?thesis by (simp add: points_grow_refl)
  qed
  have "\<forall>k \<in> set [1..16]. \<exists>v v'.
         map_of (points_by_seed bn) k = Some v \<and> map_of (points_by_seed bn') k = Some v'
       \<and> 0 \<le> v \<and> v \<le> v'"
  proof
    fix k :: int assume k: "k \<in> set [1..16]"
    from points_valid_lookup [OF valid k] obtain v where
      v: "map_of (points_by_seed bn) k = Some v" "0 \<le> v" by blast
    from grow k obtain u v' where "map_of (points_by_seed bn) k = Some u"
      and "map_of (points_by_seed bn') k = Some v'" and "u \<le> v'"
      unfolding points_grow_def by blast
    with v show "\<exists>v v'. map_of (points_by_seed bn) k = Some v
       \<and> map_of (points_by_seed bn') k = Some v' \<and> 0 \<le> v \<and> v \<le> v'" by auto
  qed
  moreover from valid have "map fst (points_by_seed bn) = [1..16]"
    by (simp add: points_valid_def)
  ultimately show ?thesis using n n' initial_points by simp
qed

theorem points_by_seed_invariant_witness:
  "map fst (points_by_seed (snd (simulate_rounds 1
      (RegionBracket SEED_PATH_DICTIONARY chalk_table (module_world fair_coin))))) = [1..16]
   \<and> 1 \<in> set [1..16 :: int]
   \<and> map_of (points_by_seed (snd (simulate_rounds 1
        (RegionBracket SEED_PATH_DICTIONARY chalk_table (module_world fair_coin))))) 1 = Some 1
   \<and> map_of (points_by_seed (snd (simulate_rounds (Suc 1)
        (RegionBracket SEED_PATH_DICTIONARY chalk_table (module_world fair_coin))))) 1 = Some 2
   \<and> map_of (points_by_seed (snd (simulate_rounds 1
        (RegionBracket SEED_PATH_DICTIONARY chalk_table (module_world fair_coin))))) 16 = Some 0"
proof -
  let ?b0 = "RegionBracket SEED_PATH_DICTIONARY chalk_table (module_world fair_coin)"
  note t = points_by_seed_invariant [of SEED_PATH_DICTIONARY chalk_table "module_world fair_coin" 1]
  have k: "(1 :: int) \<in> set [1..16]" by simp
  with t obtain v v' where
    "map_of (points_by_seed (snd (simulate_rounds 1 ?b0))) 1 = Some v"
    and "map_of (points_by_seed (snd (simulate_rounds (Suc 1) ?b0))) 1 = Some v'"
    and "0 \<le> v" "v \<le> v'" by blast
  moreover have "map_of (points_by_seed (snd (simulate_rounds 1 ?b0))) 1 = Some 1"
    and "map_of (points_by_seed (snd (simulate_rounds (Suc 1) ?b0))) 1 = Some 2"
    and "map_of (points_by_seed (snd (simulate_rounds 1 ?b0))) 16 = Some 0"
    by code_simp+
  ultimately show ?thesis using t k by simp
qed

section \<open>The inputs of an instance\<close>

lemma deepcopy_frame:
  assumes "deepcopy_items items memo h t = (copied, h', t')" and "t0 \<le> t"
    and "\<forall>a' \<in> snd ` set memo. t0 \<le> a'"
  shows "t \<le> t' \<and> (\<forall>a < t0. h' a = h a) \<and> (\<forall>a \<in> snd ` set copied. t0 \<le> a)
       \<and> map fst copied = map fst items"
  using assms
proof (induction items arbitrary: memo h t copied h' t')
  case Nil
  then show ?case by simp
next
  case (Cons item items)
  obtain k a where item: "item = (k, a)" by (cases item)
  show ?case
  proof (cases "map_of memo a")
    case (Some a')
    obtain c1 h1 t1 where rec: "deepcopy_items items memo h t = (c1, h1, t1)"
      by (cases "deepcopy_items items memo h t")
    from Some have "(a, a') \<in> set memo" by (rule map_of_SomeD)
    then have "a' \<in> snd ` set memo" by force
    with Cons.prems(3) have a': "t0 \<le> a'" by blast
    from Cons.prems(1) Some rec have res: "copied = (k, a') # c1" "h' = h1" "t' = t1"
      by (simp_all add: item)
    from Cons.IH [OF rec Cons.prems(2) Cons.prems(3)] a' res show ?thesis
      by (simp add: item)
  next
    case None
    obtain c1 h1 t1 where
      rec: "deepcopy_items items ((a, t) # memo) (h(t := h a)) (Suc t) = (c1, h1, t1)"
      by (cases "deepcopy_items items ((a, t) # memo) (h(t := h a)) (Suc t)")
    from Cons.prems(1) None rec have res: "copied = (k, t) # c1" "h' = h1" "t' = t1"
      by (simp_all add: item)
    have le: "t0 \<le> Suc t" using Cons.prems(2) by simp
    have memo: "\<forall>a' \<in> snd ` set ((a, t) # memo). t0 \<le> a'"
      using Cons.prems(2,3) by simp
    from Cons.IH [OF rec le memo]
    have "Suc t \<le> t1" and "\<forall>x < t0. h1 x = (h(t := h a)) x"
      and "\<forall>x \<in> snd ` set c1. t0 \<le> x" and "map fst c1 = map fst items" by simp_all
    with Cons.prems(2) res show ?thesis by (auto simp: item)
  qed
qed

lemma update_values: "snd ` set (AList.update k v al) \<subseteq> insert v (snd ` set al)"
  by (induction al) auto

lemma round_body_updated:
  assumes "round_body seed a l b = (Inr l', b')"
  shows "snd ` set (updated_matchup_state l') \<subseteq> insert a (snd ` set (updated_matchup_state l))"
proof (cases "seed \<in> visited l")
  case True
  with assms have "l' = l" by (simp add: round_body_skip)
  then show ?thesis by auto
next
  case False
  from round_body_matchup [OF assms False] obtain W where
    "updated_matchup_state l' = AList.update W a (updated_matchup_state l)" by blast
  with update_values [of W a "updated_matchup_state l"] show ?thesis by simp
qed

lemma kept_refl: "kept t0 b b"
  by (simp add: kept_def)

lemma kept_trans: "kept t0 b b1 \<Longrightarrow> kept t0 b1 b2 \<Longrightarrow> kept t0 b b2"
  by (simp add: kept_def)

lemma round_body_kept:
  assumes "round_body seed a l b = (r, b')" and "t0 \<le> a"
  shows "kept t0 b b' \<and> current_matchup_state b' = current_matchup_state b"
proof -
  from assms(1) have b': "b' = snd (round_body seed a l b)" by simp
  have "\<forall>x < t0. heap b' x = heap b x"
    using assms(2) by (auto simp: b' round_body_heap_other)
  then show ?thesis by (simp add: kept_def b' round_body_frame)
qed

lemma round_loop_kept:
  assumes "round_loop items l b = (r, b')"
    and "\<forall>a \<in> snd ` set items. t0 \<le> a"
    and "\<forall>a \<in> snd ` set (updated_matchup_state l). t0 \<le> a"
  shows "kept t0 b b' \<and> current_matchup_state b' = current_matchup_state b
       \<and> (\<forall>l'. r = Inr l' \<longrightarrow> (\<forall>a \<in> snd ` set (updated_matchup_state l'). t0 \<le> a))"
  using assms
proof (induction items arbitrary: l b)
  case Nil
  then show ?case by (auto simp: kept_refl)
next
  case (Cons item items)
  obtain seed a where item: "item = (seed, a)" by (cases item)
  obtain r1 b1 where body: "round_body seed a l b = (r1, b1)" by (cases "round_body seed a l b")
  from Cons.prems(2) have a: "t0 \<le> a" by (simp add: item)
  from round_body_kept [OF body a]
  have k1: "kept t0 b b1" and c1: "current_matchup_state b1 = current_matchup_state b"
    by simp_all
  show ?case
  proof (cases r1)
    case (Inl e)
    with Cons.prems(1) body have "r = Inl e" "b' = b1" by (simp_all add: item)
    with k1 c1 show ?thesis by simp
  next
    case (Inr l1)
    with Cons.prems(1) body have loop: "round_loop items l1 b1 = (r, b')" by (simp add: item)
    from body Inr have "round_body seed a l b = (Inr l1, b1)" by simp
    from round_body_updated [OF this] Cons.prems(3) a
    have u1: "\<forall>x \<in> snd ` set (updated_matchup_state l1). t0 \<le> x" by blast
    from Cons.prems(2) have "\<forall>x \<in> snd ` set items. t0 \<le> x" by (simp add: item)
    from Cons.IH [OF loop this u1] k1 c1 show ?thesis by (auto intro: kept_trans)
  qed
qed

lemma simulate_round_kept:
  assumes "simulate_round_and_update_current_state b = (r, b')"
    and "\<forall>a \<in> snd ` set (current_matchup_state b). t0 \<le> a"
  shows "kept t0 b b' \<and> (\<forall>a \<in> snd ` set (current_matchup_state b'). t0 \<le> a)"
proof -
  obtain r1 b1 where loop: "round_loop (current_matchup_state b) initial_locals b = (r1, b1)"
    by (cases "round_loop (current_matchup_state b) initial_locals b")
  have "\<forall>a \<in> snd ` set (updated_matchup_state initial_locals). t0 \<le> a"
    by (simp add: initial_locals_def)
  from round_loop_kept [OF loop assms(2) this]
  have k: "kept t0 b b1" and c: "current_matchup_state b1 = current_matchup_state b"
    and u: "\<forall>l'. r1 = Inr l' \<longrightarrow> (\<forall>a \<in> snd ` set (updated_matchup_state l'). t0 \<le> a)"
    by simp_all
  show ?thesis
  proof (cases r1)
    case (Inl e)
    with assms(1) loop have "b' = b1"
      by (simp add: simulate_round_and_update_current_state_def)
    with k c assms(2) show ?thesis by simp
  next
    case (Inr l')
    with assms(1) loop have "b' = b1\<lparr>current_matchup_state := updated_matchup_state l'\<rparr>"
      by (simp add: simulate_round_and_update_current_state_def)
    with k u Inr show ?thesis by (simp add: kept_def)
  qed
qed

lemma simulate_rounds_kept:
  assumes "simulate_rounds n b = (r, b')"
    and "\<forall>a \<in> snd ` set (current_matchup_state b). t0 \<le> a"
  shows "kept t0 b b' \<and> (\<forall>a \<in> snd ` set (current_matchup_state b'). t0 \<le> a)"
  using assms
proof (induction n arbitrary: b)
  case 0
  then show ?case by (simp add: kept_refl)
next
  case (Suc n)
  obtain r1 b1 where round: "simulate_round_and_update_current_state b = (r1, b1)"
    by (cases "simulate_round_and_update_current_state b")
  from simulate_round_kept [OF round Suc.prems(2)]
  have k1: "kept t0 b b1" and c1: "\<forall>a \<in> snd ` set (current_matchup_state b1). t0 \<le> a"
    by simp_all
  show ?case
  proof (cases r1)
    case None
    with Suc.prems(1) round have "simulate_rounds n b1 = (r, b')" by simp
    from Suc.IH [OF this c1] k1 show ?thesis by (auto intro: kept_trans)
  next
    case (Some e)
    with Suc.prems(1) round have "b' = b1" by simp
    with k1 c1 show ?thesis by simp
  qed
qed

lemma RegionBracket_fresh:
  "(\<forall>a < top w. heap (RegionBracket spd wpd w) a = heap w a)
   \<and> (\<forall>a \<in> snd ` set (current_matchup_state (RegionBracket spd wpd w)). top w \<le> a)
   \<and> seed_path_dictionary (RegionBracket spd wpd w) = spd
   \<and> win_probability_dictionary (RegionBracket spd wpd w) = wpd
   \<and> map fst (current_matchup_state (RegionBracket spd wpd w)) = map fst spd"
proof -
  obtain copied h' t' where copy: "deepcopy_items spd [] (heap w) (top w) = (copied, h', t')"
    by (cases "deepcopy_items spd [] (heap w) (top w)")
  from deepcopy_frame [OF copy, of "top w"] show ?thesis
    by (simp add: RegionBracket_def copy)
qed


text \<open>
  C10. Let the lists of the caller's schedule be objects of the world in which the
  instance is made. After the constructor and any number of rounds (four is the
  tournament), whether they return or raise: every list that existed before the
  constructor ran, and so every list of the caller's schedule, has the content it had; the
  instance still refers to the caller's schedule and table, which no operation of the
  class writes; and every list that the current state refers to is one the constructor's
  deep copy allocated, so that the pops of the rounds act on the copy alone.
\<close>

theorem inputs_unchanged:
  assumes "\<forall>a \<in> snd ` set spd. a < top w"
  shows "(\<forall>a \<in> snd ` set spd.
            heap (snd (simulate_rounds n (RegionBracket spd wpd w))) a = heap w a)
       \<and> (\<forall>a \<in> snd ` set spd.
            heap (snd (simulate_region_tournament (RegionBracket spd wpd w))) a = heap w a)
       \<and> (\<forall>a < top w. heap (snd (simulate_rounds n (RegionBracket spd wpd w))) a = heap w a)
       \<and> seed_path_dictionary (snd (simulate_rounds n (RegionBracket spd wpd w))) = spd
       \<and> win_probability_dictionary (snd (simulate_rounds n (RegionBracket spd wpd w))) = wpd
       \<and> (\<forall>a \<in> snd ` set (current_matchup_state (RegionBracket spd wpd w)). top w \<le> a)
       \<and> (\<forall>a \<in> snd ` set (current_matchup_state
             (snd (simulate_rounds n (RegionBracket spd wpd w)))). top w \<le> a)"
proof -
  let ?b0 = "RegionBracket spd wpd w"
  note f = RegionBracket_fresh [of w spd wpd]
  have run: "kept (top w) ?b0 (snd (simulate_rounds m ?b0))
      \<and> (\<forall>a \<in> snd ` set (current_matchup_state (snd (simulate_rounds m ?b0))). top w \<le> a)"
    for m
  proof -
    obtain r b' where m: "simulate_rounds m ?b0 = (r, b')" by (cases "simulate_rounds m ?b0")
    from f have "\<forall>a \<in> snd ` set (current_matchup_state ?b0). top w \<le> a" by blast
    from simulate_rounds_kept [OF m this] m show ?thesis by simp
  qed
  have heap: "\<forall>a < top w. heap (snd (simulate_rounds m ?b0)) a = heap w a" for m
    using run [of m] f by (simp add: kept_def)
  have "\<forall>a \<in> snd ` set spd. heap (snd (simulate_rounds m ?b0)) a = heap w a" for m
    using heap [of m] assms by blast
  note caller = this
  show ?thesis
    using caller [of n] caller [of 4] heap [of n] run [of n] f
    by (simp add: kept_def simulate_region_tournament_def)
qed

theorem inputs_unchanged_witness:
  "map (heap (snd (simulate_region_tournament
        (RegionBracket SEED_PATH_DICTIONARY chalk_table (module_world fair_coin)))))
     [0, 1, 2, 3, 4, 5, 6, 7] = SEED_PATH_LISTS
   \<and> seed_path_dictionary (snd (simulate_rounds 4
        (RegionBracket SEED_PATH_DICTIONARY chalk_table (module_world fair_coin))))
     = SEED_PATH_DICTIONARY
   \<and> heap (snd (simulate_region_tournament
        (RegionBracket SEED_PATH_DICTIONARY chalk_table (module_world fair_coin)))) 8 = []"
proof -
  let ?w = "module_world fair_coin"
  let ?b = "snd (simulate_region_tournament (RegionBracket SEED_PATH_DICTIONARY chalk_table ?w))"
  have pre: "\<forall>a \<in> snd ` set SEED_PATH_DICTIONARY. a < top ?w"
    by (simp add: SEED_PATH_DICTIONARY_def module_world_def)
  note t = inputs_unchanged [OF pre, of 4 chalk_table]
  from t have "\<forall>a \<in> snd ` set SEED_PATH_DICTIONARY. heap ?b a = heap ?w a" by blast
  then have "map (heap ?b) [0, 1, 2, 3, 4, 5, 6, 7] = map (heap ?w) [0, 1, 2, 3, 4, 5, 6, 7]"
    by (simp add: SEED_PATH_DICTIONARY_def)
  also have "\<dots> = SEED_PATH_LISTS"
    using loaded_module_world [of fair_coin] by (simp add: module_loaded_def)
  finally have "map (heap ?b) [0, 1, 2, 3, 4, 5, 6, 7] = SEED_PATH_LISTS" .
  moreover have "heap ?b 8 = []" by code_simp
  ultimately show ?thesis using t by simp
qed

section \<open>The slot keeps its schedule\<close>

lemma winners_either:
  "list_all2 (\<lambda>W m. W = fst m \<or> W = snd m) (winners tbl g d ms) ms"
proof (induction ms arbitrary: d)
  case Nil
  then show ?case by simp
next
  case (Cons m ms)
  obtain s opp where m: "m = (s, opp)" by (cases m)
  have "winner tbl g d s opp = s \<or> winner tbl g d s opp = opp" by (simp add: winner_def)
  with Cons.IH [of "Suc d"] show ?case by (simp add: m)
qed

lemma round_body_inherits:
  assumes "round_body seed a l b = (Inr l', b')" and "seed \<notin> visited l"
  shows "\<exists>d rest opp. heap b a = d # rest \<and> current_opponent l' = Some opp
     \<and> map_of (updated_matchup_state l')
          (winner (win_probability_dictionary b) (rng b) (draws b) seed opp) = Some a
     \<and> heap b' a = rest"
proof -
  from round_body_matchup [OF assms] obtain d rest opp pts where
    "heap b a = d # rest" and "current_opponent l' = Some opp"
    and "updated_matchup_state l'
        = AList.update (winner (win_probability_dictionary b) (rng b) (draws b) seed opp) a
            (updated_matchup_state l)"
    and "b' = b\<lparr>heap := (heap b)(a := rest), draws := Suc (draws b),
        points_by_seed :=
          AList.update (winner (win_probability_dictionary b) (rng b) (draws b) seed opp)
            (pts + winner (win_probability_dictionary b) (rng b) (draws b) seed opp)
            (points_by_seed b)\<rparr>"
    by blast
  then show ?thesis by (simp add: AList.update_conv')
qed

lemma after_round4_heap:
  assumes loaded: "module_loaded w"
  shows "map (heap (after_round4 tbl w)) (take 1 (slot_paths (top w)))
           = map tl (take 1 (map tl (take 2 (map tl (take 4 (map tl SEED_PATH_LISTS))))))"
proof -
  note f = after_round3_fields [OF loaded, of tbl]
  have "map (heap (after_round3 tbl w)) (take 1 (take 2 (slot_paths (top w))))
      = take 1 (map (heap (after_round3 tbl w)) (take 2 (slot_paths (top w))))"
    by (simp only: take_map)
  moreover have "take 1 (take 2 (slot_paths (top w))) = take 1 (slot_paths (top w))" by simp
  ultimately have "map (heap (after_round3 tbl w)) (take 1 (slot_paths (top w)))
      = take 1 (map tl (take 2 (map tl (take 4 (map tl SEED_PATH_LISTS)))))"
    by (simp only: f(1))
  then show ?thesis
    by (simp add: after_round4_def map_pop_paths [OF distinct_take_slot_paths])
qed

lemma remaining_schedules:
  "map tl SEED_PATH_LISTS = map (drop 1) SEED_PATH_LISTS"
  "map tl (take 4 (map tl SEED_PATH_LISTS)) = map (drop 2) (take 4 SEED_PATH_LISTS)"
  "map tl (take 2 (map tl (take 4 (map tl SEED_PATH_LISTS)))) = map (drop 3) (take 2 SEED_PATH_LISTS)"
  "map tl (take 1 (map tl (take 2 (map tl (take 4 (map tl SEED_PATH_LISTS))))))
     = map (drop 4) (take 1 SEED_PATH_LISTS)"
  by (simp_all add: SEED_PATH_LISTS_def)

text \<open>
  C1. When an iteration of a round resolves the matchup of the seed \<open>seed\<close>, whose list
  stands at \<open>a\<close>, the winner, be it \<open>seed\<close> or the opponent, is entered in the next state
  with the address \<open>a\<close>, and the list at \<open>a\<close> is what the pop left of it: the remaining
  schedule of the slot of \<open>seed\<close>, not the opponent's list. For a fresh instance on
  \<^verbatim>\<open>SEED_PATH_DICTIONARY\<close> and a complete table, the state after each of the four rounds
  keys the winner of the matchup of slot \<open>i\<close>, who is one of the two seeds of that matchup,
  to the copy of the list of slot \<open>i\<close>, popped once for every round played: after round
  one the winner of \<open>s\<close> against \<open>17 - s\<close>, also when it is the seed \<open>17 - s\<close> of \<open>9..16\<close>,
  holds the schedule of slot \<open>s\<close> without its first descriptor.
\<close>

theorem winner_inherits_slot_schedule:
  assumes "module_loaded w" and "complete_table tbl"
  shows "(round_body seed a l b = (Inr l', b') \<and> seed \<notin> visited l \<longrightarrow>
           (\<exists>d rest opp. heap b a = d # rest \<and> current_opponent l' = Some opp
              \<and> map_of (updated_matchup_state l')
                   (winner (win_probability_dictionary b) (rng b) (draws b) seed opp) = Some a
              \<and> heap b' a = rest))
    \<and> simulate_rounds 1 (RegionBracket SEED_PATH_DICTIONARY tbl w) = (None, after_round1 tbl w)
    \<and> current_matchup_state (after_round1 tbl w)
        = zip (round1_winners tbl (rng w) (draws w)) (slot_paths (top w))
    \<and> list_all2 (\<lambda>W m. W = fst m \<or> W = snd m) (round1_winners tbl (rng w) (draws w)) first_round
    \<and> map (heap (after_round1 tbl w)) (slot_paths (top w)) = map (drop 1) SEED_PATH_LISTS
    \<and> simulate_rounds 2 (RegionBracket SEED_PATH_DICTIONARY tbl w) = (None, after_round2 tbl w)
    \<and> current_matchup_state (after_round2 tbl w)
        = zip (round2_winners tbl (rng w) (draws w)) (take 4 (slot_paths (top w)))
    \<and> list_all2 (\<lambda>W m. W = fst m \<or> W = snd m) (round2_winners tbl (rng w) (draws w))
         (pairing (round1_winners tbl (rng w) (draws w)))
    \<and> map (heap (after_round2 tbl w)) (take 4 (slot_paths (top w)))
        = map (drop 2) (take 4 SEED_PATH_LISTS)
    \<and> simulate_rounds 3 (RegionBracket SEED_PATH_DICTIONARY tbl w) = (None, after_round3 tbl w)
    \<and> current_matchup_state (after_round3 tbl w)
        = zip (round3_winners tbl (rng w) (draws w)) (take 2 (slot_paths (top w)))
    \<and> list_all2 (\<lambda>W m. W = fst m \<or> W = snd m) (round3_winners tbl (rng w) (draws w))
         (pairing (round2_winners tbl (rng w) (draws w)))
    \<and> map (heap (after_round3 tbl w)) (take 2 (slot_paths (top w)))
        = map (drop 3) (take 2 SEED_PATH_LISTS)
    \<and> simulate_rounds 4 (RegionBracket SEED_PATH_DICTIONARY tbl w) = (None, after_round4 tbl w)
    \<and> current_matchup_state (after_round4 tbl w)
        = zip (round4_winners tbl (rng w) (draws w)) (take 1 (slot_paths (top w)))
    \<and> list_all2 (\<lambda>W m. W = fst m \<or> W = snd m) (round4_winners tbl (rng w) (draws w))
         (pairing (round3_winners tbl (rng w) (draws w)))
    \<and> map (heap (after_round4 tbl w)) (take 1 (slot_paths (top w)))
        = map (drop 4) (take 1 SEED_PATH_LISTS)"
proof -
  have body: "round_body seed a l b = (Inr l', b') \<and> seed \<notin> visited l \<longrightarrow>
           (\<exists>d rest opp. heap b a = d # rest \<and> current_opponent l' = Some opp
              \<and> map_of (updated_matchup_state l')
                   (winner (win_probability_dictionary b) (rng b) (draws b) seed opp) = Some a
              \<and> heap b' a = rest)"
    using round_body_inherits [of seed a l b l' b'] by blast
  note run = tournament_run [OF assms]
  have r4: "simulate_rounds 4 (RegionBracket SEED_PATH_DICTIONARY tbl w) = (None, after_round4 tbl w)"
    using run(4) by (simp only: simulate_region_tournament_def)
  have h: "map (heap (after_round1 tbl w)) (slot_paths (top w)) = map (drop 1) SEED_PATH_LISTS"
    "map (heap (after_round2 tbl w)) (take 4 (slot_paths (top w)))
       = map (drop 2) (take 4 SEED_PATH_LISTS)"
    "map (heap (after_round3 tbl w)) (take 2 (slot_paths (top w)))
       = map (drop 3) (take 2 SEED_PATH_LISTS)"
    "map (heap (after_round4 tbl w)) (take 1 (slot_paths (top w)))
       = map (drop 4) (take 1 SEED_PATH_LISTS)"
    by (rule trans [OF after_round1_fields(1) [OF assms(1)] remaining_schedules(1)]
        trans [OF after_round2_fields(1) [OF assms(1)] remaining_schedules(2)]
        trans [OF after_round3_fields(1) [OF assms(1)] remaining_schedules(3)]
        trans [OF after_round4_heap [OF assms(1)] remaining_schedules(4)])+
  note c = after_round1_fields(6) [OF assms(1), of tbl] after_round2_fields(6) [OF assms(1), of tbl]
    after_round3_fields(6) [OF assms(1), of tbl] after_round4_fields(2) [OF assms(1), of tbl]
  note e = winners_either [of tbl "rng w" "draws w" first_round, folded round1_winners_def]
    winners_either [of tbl "rng w" "draws w + 8" "pairing (round1_winners tbl (rng w) (draws w))",
      folded round2_winners_def]
    winners_either [of tbl "rng w" "draws w + 12" "pairing (round2_winners tbl (rng w) (draws w))",
      folded round3_winners_def]
    winners_either [of tbl "rng w" "draws w + 14" "pairing (round3_winners tbl (rng w) (draws w))",
      folded round4_winners_def]
  show ?thesis
    by (intro conjI) (rule body run(1) run(2) run(3) r4 h c e)+
qed


theorem winner_inherits_slot_schedule_witness:
  "module_loaded (module_world fair_coin) \<and> complete_table upset_table
   \<and> simulate_rounds 1 (RegionBracket SEED_PATH_DICTIONARY upset_table (module_world fair_coin))
     = (None, after_round1 upset_table (module_world fair_coin))
   \<and> current_matchup_state (after_round1 upset_table (module_world fair_coin))
     = [(16, 8), (15, 9), (14, 10), (13, 11), (12, 12), (11, 13), (10, 14), (9, 15)]
   \<and> heap (after_round1 upset_table (module_world fair_coin)) 8
     = [Tuple [8, 9], Tuple [4, 5, 12, 13], Tuple [2, 3, 6, 7, 10, 11, 14, 15]]
   \<and> round_body 1 8 initial_locals
        (RegionBracket SEED_PATH_DICTIONARY upset_table (module_world fair_coin))
     = (Inr \<lparr>updated_matchup_state = [(16, 8)], visited = {}, current_opponent = Some 16\<rparr>,
        snd (round_body 1 8 initial_locals
          (RegionBracket SEED_PATH_DICTIONARY upset_table (module_world fair_coin))))
   \<and> 1 \<notin> visited initial_locals
   \<and> heap (snd (round_body 1 8 initial_locals
        (RegionBracket SEED_PATH_DICTIONARY upset_table (module_world fair_coin)))) 8
     = tl (heap (RegionBracket SEED_PATH_DICTIONARY upset_table (module_world fair_coin)) 8)"
proof -
  let ?w = "module_world fair_coin"
  let ?B = "RegionBracket SEED_PATH_DICTIONARY upset_table ?w"
  let ?L = "\<lparr>updated_matchup_state = [(16, 8)], visited = {}, current_opponent = Some (16 :: int)\<rparr>"
  have "fst (round_body 1 8 initial_locals ?B) = Inr ?L" by code_simp
  then have run: "round_body 1 8 initial_locals ?B = (Inr ?L, snd (round_body 1 8 initial_locals ?B))"
    by (simp add: prod_eq_iff)
  have nv: "1 \<notin> visited initial_locals" by (simp add: initial_locals_def)
  note t = winner_inherits_slot_schedule [OF loaded_module_world complete_upset,
      of 1 8 initial_locals ?B ?L "snd (round_body 1 8 initial_locals ?B)" fair_coin]
  from t run nv obtain d rest where "heap ?B 8 = d # rest"
    and "heap (snd (round_body 1 8 initial_locals ?B)) 8 = rest" by blast
  then have body: "heap (snd (round_body 1 8 initial_locals ?B)) 8 = tl (heap ?B 8)" by simp
  have ws: "round1_winners upset_table (rng ?w) (draws ?w) = [16, 15, 14, 13, 12, 11, 10, 9]"
    by code_simp
  have paths: "slot_paths (top ?w) = [8, 9, 10, 11, 12, 13, 14, 15]"
    by (simp add: slot_paths_def module_world_def)
  from t have "current_matchup_state (after_round1 upset_table ?w)
      = zip (round1_winners upset_table (rng ?w) (draws ?w)) (slot_paths (top ?w))" by blast
  then have cms: "current_matchup_state (after_round1 upset_table ?w)
     = [(16, 8), (15, 9), (14, 10), (13, 11), (12, 12), (11, 13), (10, 14), (9, 15)]"
    by (simp add: ws paths)
  from t have "map (heap (after_round1 upset_table ?w)) (slot_paths (top ?w))
      = map (drop 1) SEED_PATH_LISTS" by blast
  then have heap: "heap (after_round1 upset_table ?w) 8
     = [Tuple [8, 9], Tuple [4, 5, 12, 13], Tuple [2, 3, 6, 7, 10, 11, 14, 15]]"
    by (simp add: paths SEED_PATH_LISTS_def)
  from t have "simulate_rounds 1 ?B = (None, after_round1 upset_table ?w)" by blast
  with cms heap run nv body loaded_module_world [of fair_coin] complete_upset
  show ?thesis by blast
qed

end
